theory Spec2Isabelle
  imports Main "HOL-Library.List_Lexorder" "HOL-Library.Char_ord" "HOL-Library.Multiset"
begin

section \<open>Callable objects and exceptions\<close>

text \<open>
  The schedulers of \<^verbatim>\<open>examples/comprehensive_example.cpp\<close> (namespace
  \<^verbatim>\<open>TaskScheduler\<close>) and \<^verbatim>\<open>examples/cpp20_advanced.cpp\<close> (namespace
  \<^verbatim>\<open>ModernAsyncDesign\<close>) store callables of signature \<^verbatim>\<open>void()\<close> and invoke them
  later. A call may read and change anything the callable can reach; all of that is the
  world \<open>'w\<close>, passed in and returned. A call may also throw, and it may change the
  callable object itself (a \<^verbatim>\<open>mutable\<close> lambda changes its captures). Writes to
  \<^verbatim>\<open>std::cout\<close> by the schedulers are not modelled.

  Modelling assumption: a callable held by a scheduler does not call back into that
  scheduler while it runs; submissions made from inside a running task are outside the
  model.
\<close>

datatype exn = bad_function_call | thrown string

text \<open>
  A callable object of signature \<^verbatim>\<open>void()\<close>, seen through what one call does in a world
  \<open>w\<close>: \<open>raises c w\<close> is the exception thrown (if any), \<open>effect c w\<close> the world the call
  leaves, \<open>successor c w\<close> the callable object after the call.
\<close>

codatatype 'w callable =
  Callable (raises: "'w \<Rightarrow> exn option") (effect: "'w \<Rightarrow> 'w")
           (successor: "'w \<Rightarrow> 'w callable")

text \<open>\<^verbatim>\<open>std::function<void()>\<close>: empty (\<open>None\<close>) or holding a target.\<close>

type_synonym 'w std_function = "'w callable option"

text \<open>
  \<^verbatim>\<open>std::function::operator()\<close>: an empty function throws
  \<^verbatim>\<open>std::bad_function_call\<close>; otherwise the target is called. The result is the
  exception thrown (if any), the function object after the call, and the world.
\<close>

fun invoke :: "'w std_function \<Rightarrow> 'w \<Rightarrow> exn option \<times> 'w std_function \<times> 'w" where
  "invoke None w = (Some bad_function_call, None, w)"
| "invoke (Some c) w = (raises c w, Some (successor c w), effect c w)"

text \<open>A callable without state of its own: every call behaves like \<open>f\<close>.\<close>

primcorec stateless :: "('w \<Rightarrow> exn option \<times> 'w) \<Rightarrow> 'w callable" where
  "raises (stateless f) = (\<lambda>w. fst (f w))"
| "effect (stateless f) = (\<lambda>w. snd (f w))"
| "successor (stateless f) = (\<lambda>w. stateless f)"

section \<open>ResourceManager (examples/move\_semantics.cpp)\<close>

text \<open>
  \<^verbatim>\<open>std::unique_ptr<int[]> data\<close> is \<open>None\<close> when null, otherwise the array;
  \<^verbatim>\<open>size_t size\<close> is only stored and compared, so it is a \<open>nat\<close>.
\<close>

record ResourceManager =
  data :: "int list option"
  size_field :: nat
  name :: string

text \<open>
  Copy constructor \<^verbatim>\<open>ResourceManager(const ResourceManager& other)\<close>: a fresh
  zero-initialised array when \<^verbatim>\<open>other.size > 0\<close>, filled from \<^verbatim>\<open>other.data\<close> when that
  is not null; the name gets the suffix \<^verbatim>\<open>_copy\<close>. The source is \<^verbatim>\<open>const\<close> and
  stays as it is. (Reading past the end of \<^verbatim>\<open>other.data\<close> cannot happen when the array
  has \<^verbatim>\<open>other.size\<close> elements, as every constructor ensures; the model pads with zeros.)
\<close>

definition ResourceManager_copy :: "ResourceManager \<Rightarrow> ResourceManager" where
  "ResourceManager_copy other =
     \<lparr>data = (if size_field other > 0
              then (case data other of
                      None \<Rightarrow> Some (replicate (size_field other) 0)
                    | Some d \<Rightarrow> Some (take (size_field other) d
                                      @ replicate (size_field other - length d) 0))
              else None),
      size_field = size_field other,
      name = name other @ ''_copy''\<rparr>"

text \<open>
  Move constructor \<^verbatim>\<open>ResourceManager(ResourceManager&& other)\<close>: returns the new object
  and the state it leaves \<^verbatim>\<open>other\<close> in (\<^verbatim>\<open>data\<close> null after the \<^verbatim>\<open>unique_ptr\<close>
  move, \<^verbatim>\<open>size = 0\<close>, \<^verbatim>\<open>name = "moved_from"\<close>).
\<close>

definition ResourceManager_move :: "ResourceManager \<Rightarrow> ResourceManager \<times> ResourceManager" where
  "ResourceManager_move other =
     (\<lparr>data = data other, size_field = size_field other, name = name other\<rparr>,
      \<lparr>data = None, size_field = 0, name = ''moved_from''\<rparr>)"

section \<open>std::map with ordered keys\<close>

text \<open>
  \<^verbatim>\<open>std::map<K, V>\<close> (standard library): unique keys, iterated in ascending key order.
  It is modelled by the list of its entries in iteration order. For
  \<^verbatim>\<open>std::string\<close> keys the order is the lexicographic order of the bytes, which is the
  order of \<open>string\<close> here.
\<close>

text \<open>\<^verbatim>\<open>m[k] = v\<close> on the entry list: replace the value under an equal key, or insert.\<close>

fun assign_entry :: "'k::linorder \<Rightarrow> 'v \<Rightarrow> ('k \<times> 'v) list \<Rightarrow> ('k \<times> 'v) list" where
  "assign_entry k v [] = [(k, v)]"
| "assign_entry k v ((k', v') # m) =
     (if k < k' then (k, v) # (k', v') # m
      else if k = k' then (k', v) # m
      else (k', v') # assign_entry k v m)"

lemma fst_set_assign_entry: "fst ` set (assign_entry k v m) = insert k (fst ` set m)"
proof (induction m)
  case Nil
  then show ?case by simp
next
  case (Cons p m)
  obtain k' v' where p: "p = (k', v')" by (cases p)
  show ?case using Cons.IH by (auto simp: p)
qed

lemma sorted_assign_entry:
  "sorted_wrt (<) (map fst m) \<Longrightarrow> sorted_wrt (<) (map fst (assign_entry k v m))"
proof (induction m)
  case Nil
  then show ?case by simp
next
  case (Cons p m)
  obtain k' v' where p: "p = (k', v')" by (cases p)
  from Cons.prems have tl: "sorted_wrt (<) (map fst m)"
    and hd: "\<forall>x\<in>fst ` set m. k' < x"
    by (simp_all add: p)
  show ?case
  proof (cases "k < k'")
    case True
    with hd tl show ?thesis by (auto simp: p)
  next
    case False
    show ?thesis
    proof (cases "k = k'")
      case True
      with hd tl show ?thesis by (simp add: p)
    next
      case ne: False
      with False have "k' < k" by simp
      moreover have "sorted_wrt (<) (map fst (assign_entry k v m))"
        using Cons.IH tl by simp
      ultimately show ?thesis using False ne hd
        by (simp add: p fst_set_assign_entry)
    qed
  qed
qed

typedef (overloaded) ('k, 'v) std_map =
  "{m :: ('k::linorder \<times> 'v) list. sorted_wrt (<) (map fst m)}"
  morphisms entries Abs_std_map
proof
  show "[] \<in> {m :: ('k \<times> 'v) list. sorted_wrt (<) (map fst m)}" by simp
qed

setup_lifting type_definition_std_map

text \<open>The empty map.\<close>

lift_definition map_empty :: "('k::linorder, 'v) std_map" is "[]"
  by simp

text \<open>\<^verbatim>\<open>m[k] = v\<close>.\<close>

lift_definition subscript_assign ::
  "'k::linorder \<Rightarrow> 'v \<Rightarrow> ('k, 'v) std_map \<Rightarrow> ('k, 'v) std_map" is assign_entry
  by (rule sorted_assign_entry)

text \<open>
  Writing through the references of \<^verbatim>\<open>for (auto& pair : m)\<close>: the mapped values are
  replaced position by position, the keys are \<^verbatim>\<open>const\<close>.
\<close>

lift_definition set_values ::
  "('k::linorder, 'v) std_map \<Rightarrow> 'v list \<Rightarrow> ('k, 'v) std_map"
  is "\<lambda>m vs. if length vs = length m then zip (map fst m) vs else m"
  by auto

text \<open>\<^verbatim>\<open>m.find(k)\<close>, as an option.\<close>

definition lookup :: "('k::linorder, 'v) std_map \<Rightarrow> 'k \<Rightarrow> 'v option" where
  "lookup m k = map_of (entries m) k"

section \<open>TaskScheduler::Scheduler (examples/comprehensive\_example.cpp)\<close>

text \<open>\<^verbatim>\<open>using Task = std::function<void()>\<close>.\<close>

type_synonym 'w Task = "'w std_function"

record 'w Scheduler =
  tasks :: "'w Task list"
  namedTasks :: "(string, 'w Task) std_map"

text \<open>A freshly constructed scheduler.\<close>

definition Scheduler_init :: "'w Scheduler" where
  "Scheduler_init = \<lparr>tasks = [], namedTasks = map_empty\<rparr>"

text \<open>
  The callable \<^verbatim>\<open>func\<close> handed to \<^verbatim>\<open>schedule_task\<close>, called with the stored arguments
  (here \<^verbatim>\<open>ResourceManager\<close> objects): like a \<open>callable\<close>, and \<open>f_slots\<close> is the state
  in which the call leaves the argument objects it was given by rvalue reference (moved
  from when the parameter is taken by value, untouched when taken by \<^verbatim>\<open>const&\<close>).
\<close>

codatatype 'w func =
  Func (f_raises: "ResourceManager list \<Rightarrow> 'w \<Rightarrow> exn option")
       (f_effect: "ResourceManager list \<Rightarrow> 'w \<Rightarrow> 'w")
       (f_slots: "ResourceManager list \<Rightarrow> 'w \<Rightarrow> ResourceManager list")
       (f_successor: "ResourceManager list \<Rightarrow> 'w \<Rightarrow> 'w func")

text \<open>
  The closure \<^verbatim>\<open>[scheduler_ptr, func, args]() mutable { scheduler_ptr->call_with_tuple(
  std::move(func), std::move(args), index_sequence) }\<close> built by \<^verbatim>\<open>schedule_task\<close>;
  \<^verbatim>\<open>call_with_tuple\<close> expands the tuple in slot order:
  \<^verbatim>\<open>func(std::get<I>(std::forward<Tuple>(tuple))...)\<close>. The closure keeps \<^verbatim>\<open>func\<close> and
  the tuple as the call left them.
\<close>

primcorec task_closure :: "'w func \<Rightarrow> ResourceManager list \<Rightarrow> 'w callable" where
  "raises (task_closure func args) = (\<lambda>w. f_raises func args w)"
| "effect (task_closure func args) = (\<lambda>w. f_effect func args w)"
| "successor (task_closure func args) =
     (\<lambda>w. task_closure (f_successor func args w) (f_slots func args w))"

text \<open>
  How an argument expression reaches the forwarding reference \<^verbatim>\<open>Args&&\<close>:
  \<^item> \<open>lvalue\<close>: an lvalue, const or not (\<^verbatim>\<open>Args\<close> deduced as \<^verbatim>\<open>T&\<close> or
    \<^verbatim>\<open>const T&\<close>);
  \<^item> \<open>rvalue\<close>: an rvalue of non-const type, a temporary or \<^verbatim>\<open>std::move(x)\<close> of a
    non-const \<^verbatim>\<open>x\<close> (\<^verbatim>\<open>Args\<close> deduced as \<^verbatim>\<open>T\<close>);
  \<^item> \<open>const_rvalue\<close>: an rvalue of const type, \<^verbatim>\<open>std::move(x)\<close> of a \<^verbatim>\<open>const\<close> object
    \<^verbatim>\<open>x\<close> (\<^verbatim>\<open>Args\<close> deduced as \<^verbatim>\<open>const T\<close>).
\<close>

datatype value_category = lvalue | rvalue | const_rvalue

text \<open>
  \<^verbatim>\<open>std::make_tuple(std::forward<Args>(args)...)\<close> for one argument: the tuple element
  (of type \<^verbatim>\<open>ResourceManager\<close>) is copy-constructed from an lvalue and move-constructed
  from a non-const rvalue. A \<^verbatim>\<open>const ResourceManager&&\<close> does not bind to the move
  constructor's \<^verbatim>\<open>ResourceManager&&\<close>, so a const rvalue selects the copy constructor
  (as \<^verbatim>\<open>demonstrateMovePitfalls\<close> in \<^verbatim>\<open>move_semantics.cpp\<close> notes). The result is the
  stored element and the caller's object afterwards.
\<close>

fun forward_capture :: "value_category \<times> ResourceManager \<Rightarrow> ResourceManager \<times> ResourceManager" where
  "forward_capture (lvalue, x) = (ResourceManager_copy x, x)"
| "forward_capture (rvalue, x) = ResourceManager_move x"
| "forward_capture (const_rvalue, x) = (ResourceManager_copy x, x)"

text \<open>
  The tuple then travels with the closure into the \<^verbatim>\<open>std::function\<close> that
  \<^verbatim>\<open>tasks.emplace_back\<close> constructs: each element is move-constructed again.
\<close>

definition relocate :: "ResourceManager \<Rightarrow> ResourceManager" where
  "relocate x = fst (ResourceManager_move x)"

text \<open>
  \<^verbatim>\<open>schedule_task(Func&& func, Args&&... args)\<close>: returns the scheduler and the caller's
  argument objects as the call leaves them.
\<close>

definition schedule_task ::
  "'w func \<Rightarrow> (value_category \<times> ResourceManager) list \<Rightarrow> 'w Scheduler
     \<Rightarrow> 'w Scheduler \<times> ResourceManager list" where
  "schedule_task func args s =
     (let captured = map forward_capture args;
          stored = map (relocate \<circ> fst) captured
      in (s\<lparr>tasks := tasks s @ [Some (task_closure func stored)]\<rparr>, map snd captured))"

text \<open>
  \<^verbatim>\<open>schedule_named_task(std::string name, Task task)\<close>:
  \<^verbatim>\<open>namedTasks[std::move(name)] = std::move(task)\<close>.
\<close>

definition schedule_named_task :: "string \<Rightarrow> 'w Task \<Rightarrow> 'w Scheduler \<Rightarrow> 'w Scheduler" where
  "schedule_named_task n task s = s\<lparr>namedTasks := subscript_assign n task (namedTasks s)\<rparr>"

text \<open>
  The loop \<^verbatim>\<open>for (auto& task : tasks) task();\<close>: the exception that left the loop (if
  any), the vector afterwards, the world afterwards. The first throw leaves the loop.
\<close>

fun run_tasks :: "'w Task list \<Rightarrow> 'w \<Rightarrow> exn option \<times> 'w Task list \<times> 'w" where
  "run_tasks [] w = (None, [], w)"
| "run_tasks (t # ts) w =
     (case invoke t w of
        (Some e, t', w') \<Rightarrow> (Some e, t' # ts, w')
      | (None, t', w') \<Rightarrow>
          (case run_tasks ts w' of (r, ts', w'') \<Rightarrow> (r, t' # ts', w'')))"

text \<open>
  The loop \<^verbatim>\<open>for (auto& pair : namedTasks) pair.second();\<close> over the entries in key
  order.
\<close>

fun run_named ::
  "(string \<times> 'w Task) list \<Rightarrow> 'w \<Rightarrow> exn option \<times> 'w Task list \<times> 'w" where
  "run_named [] w = (None, [], w)"
| "run_named (pair # m) w =
     (case invoke (snd pair) w of
        (Some e, t', w') \<Rightarrow> (Some e, t' # map snd m, w')
      | (None, t', w') \<Rightarrow>
          (case run_named m w' of (r, ts', w'') \<Rightarrow> (r, t' # ts', w'')))"

text \<open>
  \<^verbatim>\<open>execute_all()\<close>: the anonymous loop, \<^verbatim>\<open>tasks.clear()\<close>, the named loop. There is no
  \<^verbatim>\<open>try\<close>: an exception leaves \<^verbatim>\<open>execute_all\<close> at once. The result is the exception
  that left \<^verbatim>\<open>execute_all\<close> (\<open>None\<close> when it returns), the scheduler, the world.
\<close>

definition execute_all :: "'w Scheduler \<Rightarrow> 'w \<Rightarrow> exn option \<times> 'w Scheduler \<times> 'w" where
  "execute_all s w =
     (case run_tasks (tasks s) w of
        (Some e, ts', w1) \<Rightarrow> (Some e, s\<lparr>tasks := ts'\<rparr>, w1)
      | (None, ts', w1) \<Rightarrow>
          (case run_named (entries (namedTasks s)) w1 of
             (r, vs', w2) \<Rightarrow>
               (r, s\<lparr>tasks := [], namedTasks := set_values (namedTasks s) vs'\<rparr>, w2)))"

text \<open>\<^verbatim>\<open>getTaskCount()\<close>.\<close>

definition getTaskCount :: "'w Scheduler \<Rightarrow> nat" where
  "getTaskCount s = length (tasks s) + length (entries (namedTasks s))"

section \<open>ModernAsyncDesign::Task and TaskScheduler (examples/cpp20\_advanced.cpp)\<close>

text \<open>
  \<^verbatim>\<open>class Task\<close> of namespace \<^verbatim>\<open>ModernAsyncDesign\<close> (named \<open>AsyncTask\<close> here, since
  \<open>Task\<close> is the \<^verbatim>\<open>std::function\<close> alias of the other scheduler). \<^verbatim>\<open>int priority\<close> is
  only stored and compared, so it is an \<open>int\<close>.
\<close>

record 'w AsyncTask =
  task_func :: "'w std_function"
  task_name :: string
  priority :: int

text \<open>
  Constructor \<^verbatim>\<open>Task(std::string name, int prio, Func&& func)\<close>; \<open>func\<close> is what
  \<^verbatim>\<open>std::function<void()>(std::forward<Func>(func))\<close> holds (empty for a null function
  pointer or an empty \<^verbatim>\<open>std::function\<close>).
\<close>

definition Task_ctor :: "string \<Rightarrow> int \<Rightarrow> 'w std_function \<Rightarrow> 'w AsyncTask" where
  "Task_ctor n prio func = \<lparr>task_func = func, task_name = n, priority = prio\<rparr>"

text \<open>\<^verbatim>\<open>void execute() const { if (task_func) task_func(); }\<close>\<close>

definition Task_execute :: "'w AsyncTask \<Rightarrow> 'w \<Rightarrow> exn option \<times> 'w AsyncTask \<times> 'w" where
  "Task_execute t w =
     (if task_func t \<noteq> None
      then (case invoke (task_func t) w of (r, f', w') \<Rightarrow> (r, t\<lparr>task_func := f'\<rparr>, w'))
      else (None, t, w))"

record 'w TaskScheduler =
  sched_tasks :: "'w AsyncTask list"
  scheduler_name :: string

text \<open>Constructor \<^verbatim>\<open>TaskScheduler(std::string name)\<close>.\<close>

definition TaskScheduler_ctor :: "string \<Rightarrow> 'w TaskScheduler" where
  "TaskScheduler_ctor n = \<lparr>sched_tasks = [], scheduler_name = n\<rparr>"

text \<open>
  \<^verbatim>\<open>add_task(std::string name, int priority, Func&& func)\<close>:
  \<^verbatim>\<open>tasks.emplace_back(std::move(name), priority, std::forward<Func>(func))\<close>.
\<close>

definition add_task ::
  "string \<Rightarrow> int \<Rightarrow> 'w std_function \<Rightarrow> 'w TaskScheduler \<Rightarrow> 'w TaskScheduler" where
  "add_task n prio func s = s\<lparr>sched_tasks := sched_tasks s @ [Task_ctor n prio func]\<rparr>"

text \<open>
  The comparator of \<^verbatim>\<open>execute_all\<close>:
  \<^verbatim>\<open>[](const Task& a, const Task& b) { return a.getPriority() > b.getPriority(); }\<close>.
\<close>

definition by_priority :: "'w AsyncTask \<Rightarrow> 'w AsyncTask \<Rightarrow> bool" where
  "by_priority a b \<longleftrightarrow> priority a > priority b"

text \<open>
  \<^verbatim>\<open>std::sort(first, last, cmp)\<close> (standard library, not part of the repository). The
  standard promises that the range afterwards holds the same elements, sorted with
  respect to \<open>cmp\<close> (no element is \<open>cmp\<close>-before an earlier one), and says that the
  order of equivalent elements is not guaranteed to be preserved. \<open>std_sort_result cmp
  xs ys\<close>: \<open>ys\<close> is a content the standard allows \<^verbatim>\<open>std::sort\<close> to leave in a range that
  held \<open>xs\<close>.
\<close>

definition std_sort_result :: "('a \<Rightarrow> 'a \<Rightarrow> bool) \<Rightarrow> 'a list \<Rightarrow> 'a list \<Rightarrow> bool" where
  "std_sort_result cmp xs ys \<longleftrightarrow> mset ys = mset xs \<and> sorted_wrt (\<lambda>a b. \<not> cmp b a) ys"

text \<open>
  The loop \<^verbatim>\<open>for (const auto& task : tasks) task.execute();\<close>: the exception that left
  the loop (if any), the vector afterwards, the world afterwards.
\<close>

fun run_async_tasks ::
  "'w AsyncTask list \<Rightarrow> 'w \<Rightarrow> exn option \<times> 'w AsyncTask list \<times> 'w" where
  "run_async_tasks [] w = (None, [], w)"
| "run_async_tasks (t # ts) w =
     (case Task_execute t w of
        (Some e, t', w') \<Rightarrow> (Some e, t' # ts, w')
      | (None, t', w') \<Rightarrow>
          (case run_async_tasks ts w' of (r, ts', w'') \<Rightarrow> (r, t' # ts', w'')))"

text \<open>
  \<^verbatim>\<open>TaskScheduler::execute_all()\<close>: \<^verbatim>\<open>std::sort\<close> with the priority comparator, then the
  loop. The vector is not cleared. \<open>ordered\<close> is the content \<^verbatim>\<open>std::sort\<close> leaves in
  \<^verbatim>\<open>tasks\<close>; the source fixes it only up to \<open>std_sort_result by_priority (sched_tasks s)
  ordered\<close>, and the properties of \<open>execute_all\<close> below hold for every such \<open>ordered\<close>.
\<close>

definition TaskScheduler_execute_all ::
  "'w AsyncTask list \<Rightarrow> 'w TaskScheduler \<Rightarrow> 'w \<Rightarrow> exn option \<times> 'w TaskScheduler \<times> 'w" where
  "TaskScheduler_execute_all ordered s w =
     (case run_async_tasks ordered w of (r, ts', w') \<Rightarrow> (r, s\<lparr>sched_tasks := ts'\<rparr>, w'))"

section \<open>std::sort in the GNU C++ library\<close>

text \<open>
  Which of the orders allowed by \<open>std_sort_result\<close> a run produces depends on the
  implementation of \<^verbatim>\<open>std::sort\<close>. This section follows the one of the GNU C++ library
  (\<^verbatim>\<open>bits/stl_algo.h\<close>): an introsort loop that partitions ranges of more than 16
  elements around a median of three, then one insertion sort over the whole range. The
  range is a list, iterators are indices into it. The guards against leaving the list
  (\<open>first < length xs\<close>, index 0) are the model's; the library's loops are unguarded
  and stop earlier, at the pivot or at the median.
\<close>

text \<open>\<^verbatim>\<open>std::iter_swap(i, j)\<close>.\<close>

definition iter_swap :: "nat \<Rightarrow> nat \<Rightarrow> 'a list \<Rightarrow> 'a list" where
  "iter_swap i j xs = xs[i := xs ! j, j := xs ! i]"

text \<open>\<^verbatim>\<open>__move_median_to_first(result, a, b, c, comp)\<close>.\<close>

definition move_median_to_first ::
  "('a \<Rightarrow> 'a \<Rightarrow> bool) \<Rightarrow> nat \<Rightarrow> nat \<Rightarrow> nat \<Rightarrow> nat \<Rightarrow> 'a list \<Rightarrow> 'a list" where
  "move_median_to_first cmp result a b c xs =
     (if cmp (xs ! a) (xs ! b)
      then (if cmp (xs ! b) (xs ! c) then iter_swap result b xs
            else if cmp (xs ! a) (xs ! c) then iter_swap result c xs
            else iter_swap result a xs)
      else if cmp (xs ! a) (xs ! c) then iter_swap result a xs
      else if cmp (xs ! b) (xs ! c) then iter_swap result c xs
      else iter_swap result b xs)"

text \<open>
  The two inner loops of \<^verbatim>\<open>__unguarded_partition\<close>:
  \<^verbatim>\<open>while (comp(first, pivot)) ++first;\<close> and \<^verbatim>\<open>while (comp(pivot, last)) --last;\<close>.
\<close>

function scan_up :: "('a \<Rightarrow> 'a \<Rightarrow> bool) \<Rightarrow> 'a list \<Rightarrow> nat \<Rightarrow> nat \<Rightarrow> nat" where
  "scan_up cmp xs pivot first =
     (if first < length xs \<and> cmp (xs ! first) (xs ! pivot)
      then scan_up cmp xs pivot (Suc first) else first)"
  by pat_completeness auto
termination
  by (relation "measure (\<lambda>(cmp, xs, pivot, first). length xs - first)") auto

declare scan_up.simps [simp del]

fun scan_down :: "('a \<Rightarrow> 'a \<Rightarrow> bool) \<Rightarrow> 'a list \<Rightarrow> nat \<Rightarrow> nat \<Rightarrow> nat" where
  "scan_down cmp xs pivot 0 = 0"
| "scan_down cmp xs pivot (Suc l) =
     (if cmp (xs ! pivot) (xs ! Suc l) then scan_down cmp xs pivot l else Suc l)"

lemma scan_up_ge: "first \<le> scan_up cmp xs pivot first"
proof (induction cmp xs pivot first rule: scan_up.induct)
  case (1 cmp xs pivot first)
  show ?case
  proof (cases "first < length xs \<and> cmp (xs ! first) (xs ! pivot)")
    case True
    with "1.IH" have "Suc first \<le> scan_up cmp xs pivot (Suc first)" by simp
    with True show ?thesis by (subst scan_up.simps) simp
  next
    case False
    then show ?thesis by (subst scan_up.simps) auto
  qed
qed

lemma scan_down_le: "scan_down cmp xs pivot l \<le> l"
  by (induction l) auto

text \<open>
  \<^verbatim>\<open>__unguarded_partition(first, last, pivot, comp)\<close>: returns the cut and leaves the
  range partitioned.
\<close>

function unguarded_partition ::
  "('a \<Rightarrow> 'a \<Rightarrow> bool) \<Rightarrow> nat \<Rightarrow> 'a list \<Rightarrow> nat \<Rightarrow> nat \<Rightarrow> nat \<times> 'a list" where
  "unguarded_partition cmp pivot xs first last' =
     (let f = scan_up cmp xs pivot first;
          l = scan_down cmp xs pivot (last' - 1)
      in if \<not> f < l then (f, xs)
         else unguarded_partition cmp pivot (iter_swap f l xs) (Suc f) l)"
  by pat_completeness auto
termination
proof (relation "measure (\<lambda>(cmp, pivot, xs, first, last'). last' - first)")
  show "wf (measure (\<lambda>(cmp, pivot, xs, first, last'). last' - first))" by simp
next
  fix cmp :: "'a \<Rightarrow> 'a \<Rightarrow> bool" and pivot xs first last' f l
  assume f: "f = scan_up cmp xs pivot first" and l: "l = scan_down cmp xs pivot (last' - 1)"
    and lt: "\<not> \<not> f < l"
  have "first \<le> f" unfolding f by (rule scan_up_ge)
  moreover have "l \<le> last' - 1" unfolding l by (rule scan_down_le)
  ultimately show "((cmp, pivot, iter_swap f l xs, Suc f, l), (cmp, pivot, xs, first, last'))
      \<in> measure (\<lambda>(cmp, pivot, xs, first, last'). last' - first)"
    using lt by simp
qed

declare unguarded_partition.simps [simp del]

text \<open>\<^verbatim>\<open>__unguarded_partition_pivot(first, last, comp)\<close>.\<close>

definition unguarded_partition_pivot ::
  "('a \<Rightarrow> 'a \<Rightarrow> bool) \<Rightarrow> 'a list \<Rightarrow> nat \<Rightarrow> nat \<Rightarrow> nat \<times> 'a list" where
  "unguarded_partition_pivot cmp xs first last' =
     (let mid = first + (last' - first) div 2
      in unguarded_partition cmp first
           (move_median_to_first cmp first (first + 1) mid (last' - 1) xs) (first + 1) last')"

text \<open>
  \<^verbatim>\<open>__introsort_loop(first, last, depth_limit, comp)\<close>, with the threshold 16. When the
  depth limit is used up on a range of more than 16 elements the library falls back to
  heap sort; that part is not modelled, and the result is \<open>None\<close>.
\<close>

fun introsort_loop ::
  "('a \<Rightarrow> 'a \<Rightarrow> bool) \<Rightarrow> 'a list \<Rightarrow> nat \<Rightarrow> nat \<Rightarrow> nat \<Rightarrow> 'a list option" where
  "introsort_loop cmp xs first last' 0 = (if last' - first > 16 then None else Some xs)"
| "introsort_loop cmp xs first last' (Suc depth_limit) =
     (if last' - first > 16
      then (case unguarded_partition_pivot cmp xs first last' of
              (cut', xs1) \<Rightarrow>
                (case introsort_loop cmp xs1 cut' last' depth_limit of
                   None \<Rightarrow> None
                 | Some xs2 \<Rightarrow> introsort_loop cmp xs2 first cut' depth_limit))
      else Some xs)"

text \<open>
  \<^verbatim>\<open>__unguarded_linear_insert(last, comp)\<close> with \<open>val\<close> the element taken out of
  position \<open>last\<close>.
\<close>

fun unguarded_linear_insert :: "('a \<Rightarrow> 'a \<Rightarrow> bool) \<Rightarrow> 'a \<Rightarrow> 'a list \<Rightarrow> nat \<Rightarrow> 'a list" where
  "unguarded_linear_insert cmp val xs 0 = xs[0 := val]"
| "unguarded_linear_insert cmp val xs (Suc next) =
     (if cmp val (xs ! next)
      then unguarded_linear_insert cmp val (xs[Suc next := xs ! next]) next
      else xs[Suc next := val])"

text \<open>
  One round of the loop of \<^verbatim>\<open>__insertion_sort(first, last, comp)\<close>, for the element at
  \<open>i\<close>: it goes to the front when it is before the first element, and is inserted from
  the right otherwise.
\<close>

definition insertion_step :: "('a \<Rightarrow> 'a \<Rightarrow> bool) \<Rightarrow> nat \<Rightarrow> 'a list \<Rightarrow> nat \<Rightarrow> 'a list" where
  "insertion_step cmp first xs i =
     (if cmp (xs ! i) (xs ! first)
      then take first xs @ xs ! i # take (i - first) (drop first xs) @ drop (Suc i) xs
      else unguarded_linear_insert cmp (xs ! i) xs i)"

definition insertion_sort :: "('a \<Rightarrow> 'a \<Rightarrow> bool) \<Rightarrow> 'a list \<Rightarrow> nat \<Rightarrow> nat \<Rightarrow> 'a list" where
  "insertion_sort cmp xs first last' = foldl (insertion_step cmp first) xs [Suc first..<last']"

text \<open>\<^verbatim>\<open>__unguarded_insertion_sort(first, last, comp)\<close>.\<close>

definition unguarded_insertion_sort ::
  "('a \<Rightarrow> 'a \<Rightarrow> bool) \<Rightarrow> 'a list \<Rightarrow> nat \<Rightarrow> nat \<Rightarrow> 'a list" where
  "unguarded_insertion_sort cmp xs first last' =
     foldl (\<lambda>ys i. unguarded_linear_insert cmp (ys ! i) ys i) xs [first..<last']"

text \<open>\<^verbatim>\<open>__final_insertion_sort(first, last, comp)\<close>.\<close>

definition final_insertion_sort :: "('a \<Rightarrow> 'a \<Rightarrow> bool) \<Rightarrow> 'a list \<Rightarrow> nat \<Rightarrow> nat \<Rightarrow> 'a list" where
  "final_insertion_sort cmp xs first last' =
     (if last' - first > 16
      then unguarded_insertion_sort cmp (insertion_sort cmp xs first (first + 16))
             (first + 16) last'
      else insertion_sort cmp xs first last')"

text \<open>\<^verbatim>\<open>__lg(n)\<close>: the binary logarithm, rounded down.\<close>

fun lg :: "nat \<Rightarrow> nat" where
  "lg n = (if n < 2 then 0 else Suc (lg (n div 2)))"

declare lg.simps [simp del]

text \<open>
  \<^verbatim>\<open>std::sort(first, last, comp)\<close> on a whole vector: the introsort loop with depth limit
  \<^verbatim>\<open>__lg(last - first) * 2\<close>, then the final insertion sort.
\<close>

definition gnu_sort :: "('a \<Rightarrow> 'a \<Rightarrow> bool) \<Rightarrow> 'a list \<Rightarrow> 'a list option" where
  "gnu_sort cmp xs =
     (if xs = [] then Some xs
      else (case introsort_loop cmp xs 0 (length xs) (lg (length xs) * 2) of
              None \<Rightarrow> None
            | Some ys \<Rightarrow> Some (final_insertion_sort cmp ys 0 (length ys))))"

section \<open>Describing an execution\<close>

text \<open>
  The words the properties below use. \<open>call_raises t w\<close> and \<open>call_effect t w\<close>: the
  exception one call of \<open>t\<close> in world \<open>w\<close> throws (if any) and the world it leaves
  (whether it returns or throws).
\<close>

definition call_raises :: "'w std_function \<Rightarrow> 'w \<Rightarrow> exn option" where
  "call_raises t w = fst (invoke t w)"

definition call_effect :: "'w std_function \<Rightarrow> 'w \<Rightarrow> 'w" where
  "call_effect t w = snd (snd (invoke t w))"

text \<open>
  Calling the functions of a list one after the other, each in the world the previous one
  left: \<open>effects ts w\<close> is the world after all of them.
\<close>

definition effects :: "'w std_function list \<Rightarrow> 'w \<Rightarrow> 'w" where
  "effects ts w = foldl (\<lambda>w' t. call_effect t w') w ts"

text \<open>
  \<open>invoked ts w\<close>: how many functions of \<open>ts\<close> get called when they are called in list
  order from world \<open>w\<close> and the first throw ends the sequence (the throwing call counts).
  \<open>first_raise ts w\<close>: the exception of that first throw, \<open>None\<close> when every call returns.
\<close>

fun invoked :: "'w std_function list \<Rightarrow> 'w \<Rightarrow> nat" where
  "invoked [] w = 0"
| "invoked (t # ts) w =
     (if call_raises t w = None then Suc (invoked ts (call_effect t w)) else 1)"

fun first_raise :: "'w std_function list \<Rightarrow> 'w \<Rightarrow> exn option" where
  "first_raise [] w = None"
| "first_raise (t # ts) w =
     (if call_raises t w = None then first_raise ts (call_effect t w) else call_raises t w)"

text \<open>
  The function an \<open>AsyncTask\<close> calls when executed: \<open>Task::execute\<close> skips an empty
  \<open>task_func\<close>, so an empty one counts as a callable that does nothing.
\<close>

primcorec skip :: "'w callable" where
  "raises skip = (\<lambda>w. None)"
| "effect skip = (\<lambda>w. w)"
| "successor skip = (\<lambda>w. skip)"

definition guarded :: "'w AsyncTask \<Rightarrow> 'w std_function" where
  "guarded t = (if task_func t \<noteq> None then task_func t else Some skip)"

text \<open>
  The order in which \<open>execute_all\<close> visits the tasks of a \<open>Scheduler\<close>: the vector, then
  the map in iteration order.
\<close>

definition run_order :: "'w Scheduler \<Rightarrow> 'w Task list" where
  "run_order s = tasks s @ map snd (entries (namedTasks s))"

text \<open>
  The arguments at rest in the closure that \<open>schedule_task func args\<close> stores, and that
  closure as a \<open>Task\<close>.
\<close>

definition stored :: "(value_category \<times> ResourceManager) list \<Rightarrow> ResourceManager list" where
  "stored args = map (relocate \<circ> fst \<circ> forward_capture) args"

definition closure_of :: "'w func \<times> (value_category \<times> ResourceManager) list \<Rightarrow> 'w Task" where
  "closure_of sub = Some (task_closure (fst sub) (stored (snd sub)))"

text \<open>A sequence of \<open>schedule_task\<close> calls, in list order.\<close>

definition submit_all ::
  "('w func \<times> (value_category \<times> ResourceManager) list) list \<Rightarrow> 'w Scheduler \<Rightarrow> 'w Scheduler" where
  "submit_all subs s = foldl (\<lambda>s' sub. fst (schedule_task (fst sub) (snd sub) s')) s subs"

section \<open>Sample callables\<close>

text \<open>
  Concrete callables for evaluating the model. The world is a log of strings, as the
  console is for the demonstrations.
\<close>

text \<open>
  A function without state that takes its parameters by \<^verbatim>\<open>const&\<close> (the argument objects
  stay as they are), like \<^verbatim>\<open>parameterized_task\<close>.
\<close>

primcorec plain_func :: "(ResourceManager list \<Rightarrow> 'w \<Rightarrow> exn option \<times> 'w) \<Rightarrow> 'w func" where
  "f_raises (plain_func f) = (\<lambda>args w. fst (f args w))"
| "f_effect (plain_func f) = (\<lambda>args w. snd (f args w))"
| "f_slots (plain_func f) = (\<lambda>args w. args)"
| "f_successor (plain_func f) = (\<lambda>args w. plain_func f)"

text \<open>Writes a line, then the names of its arguments.\<close>

definition say :: "string \<Rightarrow> string list func" where
  "say line = plain_func (\<lambda>args w. (None, w @ [line] @ map name args))"

text \<open>Throws without writing anything.\<close>

definition fail :: "string \<Rightarrow> string list func" where
  "fail what = plain_func (\<lambda>args w. (Some (thrown what), w))"

text \<open>A \<^verbatim>\<open>std::function<void()>\<close> holding a callable that writes a line.\<close>

definition say_task :: "string \<Rightarrow> string list std_function" where
  "say_task line = Some (stateless (\<lambda>w. (None, w @ [line])))"

text \<open>
  A scheduler with one anonymous task and two named tasks, the name \<open>b\<close> submitted
  before the name \<open>a\<close>.
\<close>

definition mixed_scheduler :: "string list Scheduler" where
  "mixed_scheduler =
     schedule_named_task ''a'' (say_task ''named a'')
       (schedule_named_task ''b'' (say_task ''named b'')
          (fst (schedule_task (say ''anonymous'') [] Scheduler_init)))"

text \<open>Three anonymous tasks A, B, C, of which B throws.\<close>

definition failing_batch :: "string list Scheduler" where
  "failing_batch = submit_all [(say ''A'', []), (fail ''B'', []), (say ''C'', [])] Scheduler_init"

text \<open>
  Twenty tasks of equal priority, named \<open>a\<close> to \<open>t\<close> and submitted in that order; each
  writes its name.
\<close>

definition equal_task :: "string \<Rightarrow> string list AsyncTask" where
  "equal_task n = Task_ctor n 1 (say_task n)"

definition twenty_names :: "string list" where
  "twenty_names =
     [''a'', ''b'', ''c'', ''d'', ''e'', ''f'', ''g'', ''h'', ''i'', ''j'',
      ''k'', ''l'', ''m'', ''n'', ''o'', ''p'', ''q'', ''r'', ''s'', ''t'']"

definition twenty_scheduler :: "string list TaskScheduler" where
  "twenty_scheduler =
     foldl (\<lambda>s n. add_task n 1 (say_task n) s) (TaskScheduler_ctor ''main'') twenty_names"

text \<open>The names in the order in which the GNU \<^verbatim>\<open>std::sort\<close> leaves the twenty tasks.\<close>

definition reordered_names :: "string list" where
  "reordered_names =
     [''k'', ''t'', ''s'', ''r'', ''q'', ''p'', ''o'', ''n'', ''m'', ''l'',
      ''a'', ''j'', ''i'', ''h'', ''g'', ''f'', ''e'', ''d'', ''c'', ''b'']"

text \<open>Three tasks of priorities 1, 5 and 3, submitted in that order.\<close>

definition priority_scheduler :: "string list TaskScheduler" where
  "priority_scheduler =
     add_task ''C'' 3 (say_task ''C'')
       (add_task ''B'' 5 (say_task ''B'')
          (add_task ''A'' 1 (say_task ''A'') (TaskScheduler_ctor ''main'')))"

text \<open>One task, and a scheduler holding it.\<close>

definition once_task :: "string list AsyncTask" where
  "once_task = Task_ctor ''t'' 0 (say_task ''run'')"

definition once_scheduler :: "string list TaskScheduler" where
  "once_scheduler = add_task ''t'' 0 (say_task ''run'') (TaskScheduler_ctor ''main'')"

section \<open>Properties of the containers\<close>

lemma lookup_subscript_assign_list:
  "sorted_wrt (<) (map fst m) \<Longrightarrow>
     map_of (assign_entry k v m) k' = (if k' = k then Some v else map_of m k')"
proof (induction m)
  case Nil
  then show ?case by simp
next
  case (Cons p m)
  obtain a b where p: "p = (a, b)" by (cases p)
  from Cons.prems have tl: "sorted_wrt (<) (map fst m)" by (simp add: p)
  show ?case using Cons.IH [OF tl] by (auto simp: p)
qed

lemma lookup_subscript_assign:
  "lookup (subscript_assign k v m) k' = (if k' = k then Some v else lookup m k')"
  unfolding lookup_def subscript_assign.rep_eq
  using entries [of m] by (simp add: lookup_subscript_assign_list)

lemma assign_entry_twice:
  "assign_entry k v2 (assign_entry k v1 m) = assign_entry k v2 m"
proof (induction m)
  case Nil
  then show ?case by simp
next
  case (Cons p m)
  obtain a b where p: "p = (a, b)" by (cases p)
  show ?case using Cons.IH by (auto simp: p)
qed

lemma subscript_assign_twice:
  "subscript_assign k v2 (subscript_assign k v1 m) = subscript_assign k v2 m"
proof -
  have "entries (subscript_assign k v2 (subscript_assign k v1 m))
        = entries (subscript_assign k v2 m)"
    by (simp add: subscript_assign.rep_eq assign_entry_twice)
  then show ?thesis by (simp add: entries_inject)
qed

lemma keys_distinct: "distinct (map fst (entries m))"
proof -
  have "sorted_wrt (<) (map fst (entries m))" using entries [of m] by simp
  then show ?thesis by (simp add: strict_sorted_iff)
qed

lemma length_assign_entry:
  "sorted_wrt (<) (map fst m) \<Longrightarrow>
     length (assign_entry k v m) = (if k \<in> fst ` set m then length m else Suc (length m))"
proof (induction m)
  case Nil
  then show ?case by simp
next
  case (Cons p m)
  obtain a b where p: "p = (a, b)" by (cases p)
  from Cons.prems have tl: "sorted_wrt (<) (map fst m)"
    and hd: "\<forall>x\<in>fst ` set m. a < x"
    by (simp_all add: p)
  show ?case using Cons.IH [OF tl] hd by (auto simp: p)
qed

lemma size_subscript_assign:
  "length (entries (subscript_assign k v m))
     = (if lookup m k = None then Suc (length (entries m)) else length (entries m))"
proof -
  have "(lookup m k = None) = (k \<notin> fst ` set (entries m))"
    by (simp add: lookup_def map_of_eq_None_iff)
  then show ?thesis
    using entries [of m] by (simp add: subscript_assign.rep_eq length_assign_entry)
qed

lemma one_entry_per_key:
  "distinct (map fst m) \<Longrightarrow> map_of m k = Some v \<Longrightarrow> filter (\<lambda>p. fst p = k) m = [(k, v)]"
proof (induction m)
  case Nil
  then show ?case by simp
next
  case (Cons p m)
  obtain a b where p: "p = (a, b)" by (cases p)
  show ?case
  proof (cases "a = k")
    case True
    with Cons.prems have "k \<notin> fst ` set m" and "b = v" by (auto simp: p)
    then have "filter (\<lambda>p. fst p = k) m = []" by (auto simp: filter_empty_conv)
    with True \<open>b = v\<close> show ?thesis by (simp add: p)
  next
    case False
    with Cons.prems Cons.IH show ?thesis by (simp add: p)
  qed
qed

section \<open>Submission\<close>

text \<open>
  C10. Each submission operation changes only its own collection. \<open>schedule_task\<close>
  appends exactly one task (the closure over \<open>func\<close> and the stored arguments) at the
  end of \<open>tasks\<close> and leaves \<open>namedTasks\<close> as it is. \<open>schedule_named_task\<close> leaves
  \<open>tasks\<close> as it is and changes \<open>namedTasks\<close> at the key \<open>n\<close> only: afterwards \<open>n\<close> maps
  to the new task and every other key maps to what it mapped to before. The task count
  grows by one with \<open>schedule_task\<close>; with \<open>schedule_named_task\<close> it grows by one when
  \<open>n\<close> was absent and stays the same when \<open>n\<close> was present (the entry is replaced).
\<close>

theorem submission_frame:
  "tasks (fst (schedule_task func args s))
     = tasks s @ [Some (task_closure func (map (relocate \<circ> fst \<circ> forward_capture) args))]
   \<and> namedTasks (fst (schedule_task func args s)) = namedTasks s
   \<and> tasks (schedule_named_task n t s) = tasks s
   \<and> (\<forall>k. lookup (namedTasks (schedule_named_task n t s)) k
            = (if k = n then Some t else lookup (namedTasks s) k))
   \<and> getTaskCount (fst (schedule_task func args s)) = Suc (getTaskCount s)
   \<and> getTaskCount (schedule_named_task n t s)
       = (if lookup (namedTasks s) n = None then Suc (getTaskCount s) else getTaskCount s)"
proof -
  have a: "tasks (fst (schedule_task func args s))
     = tasks s @ [Some (task_closure func (map (relocate \<circ> fst \<circ> forward_capture) args))]"
    by (simp add: schedule_task_def Let_def comp_def)
  have b: "namedTasks (fst (schedule_task func args s)) = namedTasks s"
    by (simp add: schedule_task_def Let_def)
  have c: "tasks (schedule_named_task n t s) = tasks s"
    by (simp add: schedule_named_task_def)
  have d: "\<forall>k. lookup (namedTasks (schedule_named_task n t s)) k
            = (if k = n then Some t else lookup (namedTasks s) k)"
    by (simp add: schedule_named_task_def lookup_subscript_assign)
  have "length (entries (namedTasks (schedule_named_task n t s)))
       = (if lookup (namedTasks s) n = None then Suc (length (entries (namedTasks s)))
          else length (entries (namedTasks s)))"
    unfolding schedule_named_task_def
    by (simp add: size_subscript_assign del: split_paired_All)
  with c have e: "getTaskCount (schedule_named_task n t s)
       = (if lookup (namedTasks s) n = None then Suc (getTaskCount s) else getTaskCount s)"
    by (simp add: getTaskCount_def)
  from a b have f: "getTaskCount (fst (schedule_task func args s)) = Suc (getTaskCount s)"
    by (simp add: getTaskCount_def)
  from a b c d e f show ?thesis by blast
qed

text \<open>
  C1, as claimed, fails. An object handed over with \<^verbatim>\<open>std::move\<close> is submitted with
  transfer intent; when the object is \<^verbatim>\<open>const\<close>, \<open>schedule_task\<close> copies it: the caller's
  object is afterwards what it was (its data is still there), and the closure holds a
  copy, named \<^verbatim>\<open>given_copy\<close>.
\<close>

theorem transfer_intent_counterexample:
  "snd (schedule_task (say ''task'')
          [(const_rvalue, \<lparr>data = Some [0, 1, 2], size_field = 3, name = ''given''\<rparr>)]
          Scheduler_init)
     = [\<lparr>data = Some [0, 1, 2], size_field = 3, name = ''given''\<rparr>]
   \<and> stored [(const_rvalue, \<lparr>data = Some [0, 1, 2], size_field = 3, name = ''given''\<rparr>)]
     = [\<lparr>data = Some [0, 1, 2], size_field = 3, name = ''given_copy''\<rparr>]"
  by (simp add: schedule_task_def Let_def stored_def relocate_def ResourceManager_move_def
        ResourceManager_copy_def)

text \<open>
  C1, amended. For every argument position \<open>i\<close> of \<open>schedule_task\<close> holding a
  \<open>ResourceManager\<close>: when the argument is passed as an rvalue of non-const type, the
  caller's object is afterwards in the moved-from state of \<open>ResourceManager\<close> (null
  \<open>data\<close>, \<open>size\<close> 0, name \<open>moved_from\<close>); when it is passed as an lvalue, or as an rvalue
  of const type, the caller's object is afterwards what it was.
\<close>

theorem ownership_mode_fidelity:
  "length (snd (schedule_task func args s)) = length args
   \<and> (\<forall>i < length args.
         (fst (args ! i) = rvalue \<longrightarrow>
            snd (schedule_task func args s) ! i
              = \<lparr>data = None, size_field = 0, name = ''moved_from''\<rparr>)
       \<and> (fst (args ! i) = lvalue \<longrightarrow>
            snd (schedule_task func args s) ! i = snd (args ! i))
       \<and> (fst (args ! i) = const_rvalue \<longrightarrow>
            snd (schedule_task func args s) ! i = snd (args ! i)))"
proof -
  have one: "snd (forward_capture a)
       = (case fst a of lvalue \<Rightarrow> snd a
          | rvalue \<Rightarrow> \<lparr>data = None, size_field = 0, name = ''moved_from''\<rparr>
          | const_rvalue \<Rightarrow> snd a)" for a
    by (cases a; cases "fst a") (simp_all add: ResourceManager_move_def)
  have "snd (schedule_task func args s) = map (snd \<circ> forward_capture) args"
    by (simp add: schedule_task_def Let_def)
  then show ?thesis by (simp add: one)
qed

lemma three_elements: "length xs = 3 \<Longrightarrow> xs = [xs ! 0, xs ! 1, xs ! 2]"
  by (auto simp: length_Suc_conv numeral_3_eq_3)

theorem ownership_mode_fidelity_witness:
  "snd (schedule_task (say ''task'')
          [(lvalue, \<lparr>data = Some [0, 1], size_field = 2, name = ''kept''\<rparr>),
           (rvalue, \<lparr>data = Some [0, 1, 2], size_field = 3, name = ''given''\<rparr>),
           (const_rvalue, \<lparr>data = Some [7], size_field = 1, name = ''fixed''\<rparr>)]
          Scheduler_init)
     = [\<lparr>data = Some [0, 1], size_field = 2, name = ''kept''\<rparr>,
        \<lparr>data = None, size_field = 0, name = ''moved_from''\<rparr>,
        \<lparr>data = Some [7], size_field = 1, name = ''fixed''\<rparr>]"
proof -
  let ?args = "[(lvalue, \<lparr>data = Some [0, 1], size_field = 2, name = ''kept''\<rparr>),
           (rvalue, \<lparr>data = Some [0, 1, 2], size_field = 3, name = ''given''\<rparr>),
           (const_rvalue, \<lparr>data = Some [7], size_field = 1, name = ''fixed''\<rparr>)]"
  let ?after = "snd (schedule_task (say ''task'') ?args Scheduler_init)"
  from ownership_mode_fidelity [of "say ''task''" ?args Scheduler_init]
  have len: "length ?after = 3"
    and each: "\<forall>i < 3.
         (fst (?args ! i) = rvalue \<longrightarrow>
            ?after ! i = \<lparr>data = None, size_field = 0, name = ''moved_from''\<rparr>)
       \<and> (fst (?args ! i) = lvalue \<longrightarrow> ?after ! i = snd (?args ! i))
       \<and> (fst (?args ! i) = const_rvalue \<longrightarrow> ?after ! i = snd (?args ! i))"
    by simp_all
  from each have "(fst (?args ! 0) = lvalue \<longrightarrow> ?after ! 0 = snd (?args ! 0))"
    by (metis zero_less_numeral)
  then have a: "?after ! 0 = \<lparr>data = Some [0, 1], size_field = 2, name = ''kept''\<rparr>"
    by simp
  have "(1::nat) < 3" by simp
  with each have "(fst (?args ! 1) = rvalue \<longrightarrow>
            ?after ! 1 = \<lparr>data = None, size_field = 0, name = ''moved_from''\<rparr>)"
    by blast
  then have b: "?after ! 1 = \<lparr>data = None, size_field = 0, name = ''moved_from''\<rparr>"
    by simp
  have "(2::nat) < 3" by simp
  with each have "(fst (?args ! 2) = const_rvalue \<longrightarrow> ?after ! 2 = snd (?args ! 2))"
    by blast
  then have c: "?after ! 2 = \<lparr>data = Some [7], size_field = 1, name = ''fixed''\<rparr>"
    by simp
  have "?after = [?after ! 0, ?after ! 1, ?after ! 2]"
    using len by (rule three_elements)
  also have "\<dots> = [\<lparr>data = Some [0, 1], size_field = 2, name = ''kept''\<rparr>,
        \<lparr>data = None, size_field = 0, name = ''moved_from''\<rparr>,
        \<lparr>data = Some [7], size_field = 1, name = ''fixed''\<rparr>]"
    by (simp only: a b c)
  finally show ?thesis .
qed

section \<open>The loops, in the words of the properties\<close>

lemma effects_Nil: "effects [] w = w"
  by (simp add: effects_def)

lemma effects_Cons: "effects (t # ts) w = effects ts (call_effect t w)"
  by (simp add: effects_def)

lemma effects_append: "effects (xs @ ys) w = effects ys (effects xs w)"
  by (simp add: effects_def)

lemma invoked_le: "invoked ts w \<le> length ts"
  by (induction ts arbitrary: w) auto

lemma invoked_all: "first_raise ts w = None \<Longrightarrow> invoked ts w = length ts"
  by (induction ts arbitrary: w) (auto split: if_splits)

lemma first_raise_append:
  "first_raise (xs @ ys) w
     = (if first_raise xs w = None then first_raise ys (effects xs w) else first_raise xs w)"
  by (induction xs arbitrary: w) (auto simp: effects_Nil effects_Cons)

lemma invoked_append:
  "invoked (xs @ ys) w
     = (if first_raise xs w = None then length xs + invoked ys (effects xs w)
        else invoked xs w)"
  by (induction xs arbitrary: w) (auto simp: effects_Nil effects_Cons)

lemma run_tasks_raise: "fst (run_tasks ts w) = first_raise ts w"
proof (induction ts arbitrary: w)
  case Nil
  then show ?case by simp
next
  case (Cons t ts)
  obtain r t' w' where i: "invoke t w = (r, t', w')" by (cases "invoke t w")
  then have cr: "call_raises t w = r" and ce: "call_effect t w = w'"
    by (simp_all add: call_raises_def call_effect_def)
  obtain r2 ts2 w2 where rt: "run_tasks ts w' = (r2, ts2, w2)" by (cases "run_tasks ts w'")
  show ?case using Cons.IH [of w'] by (cases r) (simp_all add: i cr ce rt)
qed

lemma run_tasks_world:
  "snd (snd (run_tasks ts w)) = effects (take (invoked ts w) ts) w"
proof (induction ts arbitrary: w)
  case Nil
  then show ?case by (simp add: effects_Nil)
next
  case (Cons t ts)
  obtain r t' w' where i: "invoke t w = (r, t', w')" by (cases "invoke t w")
  then have cr: "call_raises t w = r" and ce: "call_effect t w = w'"
    by (simp_all add: call_raises_def call_effect_def)
  obtain r2 ts2 w2 where rt: "run_tasks ts w' = (r2, ts2, w2)" by (cases "run_tasks ts w'")
  show ?case using Cons.IH [of w']
    by (cases r) (simp_all add: i cr ce rt effects_Cons effects_Nil)
qed

lemma run_tasks_length: "length (fst (snd (run_tasks ts w))) = length ts"
proof (induction ts arbitrary: w)
  case Nil
  then show ?case by simp
next
  case (Cons t ts)
  obtain r t' w' where i: "invoke t w = (r, t', w')" by (cases "invoke t w")
  obtain r2 ts2 w2 where rt: "run_tasks ts w' = (r2, ts2, w2)" by (cases "run_tasks ts w'")
  show ?case using Cons.IH [of w'] by (cases r) (simp_all add: i rt)
qed

lemma run_named_run_tasks: "run_named m w = run_tasks (map snd m) w"
proof (induction m arbitrary: w)
  case Nil
  then show ?case by simp
next
  case (Cons p m)
  obtain r t' w' where i: "invoke (snd p) w = (r, t', w')" by (cases "invoke (snd p) w")
  show ?case using Cons.IH [of w'] by (cases r) (simp_all add: i)
qed

lemma execute_all_raise: "fst (execute_all s w) = first_raise (run_order s) w"
proof (cases "first_raise (tasks s) w")
  case None
  then obtain ts' where rt: "run_tasks (tasks s) w = (None, ts', effects (tasks s) w)"
    using run_tasks_raise [of "tasks s" w] run_tasks_world [of "tasks s" w]
    by (cases "run_tasks (tasks s) w") (simp add: invoked_all)
  show ?thesis
    using None run_tasks_raise [of "map snd (entries (namedTasks s))" "effects (tasks s) w"]
    by (simp add: execute_all_def rt run_order_def first_raise_append run_named_run_tasks
          split_beta)
next
  case (Some e)
  then obtain ts' w' where rt: "run_tasks (tasks s) w = (Some e, ts', w')"
    using run_tasks_raise [of "tasks s" w] by (cases "run_tasks (tasks s) w") simp
  show ?thesis using Some
    by (simp add: execute_all_def rt run_order_def first_raise_append)
qed

lemma execute_all_world:
  "snd (snd (execute_all s w)) = effects (take (invoked (run_order s) w) (run_order s)) w"
proof (cases "first_raise (tasks s) w")
  case None
  then obtain ts' where rt: "run_tasks (tasks s) w = (None, ts', effects (tasks s) w)"
    using run_tasks_raise [of "tasks s" w] run_tasks_world [of "tasks s" w]
    by (cases "run_tasks (tasks s) w") (simp add: invoked_all)
  show ?thesis
    using None run_tasks_world [of "map snd (entries (namedTasks s))" "effects (tasks s) w"]
    by (simp add: execute_all_def rt run_order_def invoked_append run_named_run_tasks
          split_beta effects_append)
next
  case (Some e)
  then obtain ts' w' where rt: "run_tasks (tasks s) w = (Some e, ts', w')"
    using run_tasks_raise [of "tasks s" w] by (cases "run_tasks (tasks s) w") simp
  have le: "invoked (tasks s) w \<le> length (tasks s)" by (rule invoked_le)
  show ?thesis using Some run_tasks_world [of "tasks s" w] le
    by (simp add: execute_all_def rt run_order_def invoked_append)
qed

section \<open>Execution order\<close>

lemma tasks_submit_all:
  "tasks (submit_all subs s) = tasks s @ map closure_of subs"
proof (induction subs arbitrary: s)
  case Nil
  then show ?case by (simp add: submit_all_def)
next
  case (Cons sub subs)
  obtain f args where sub: "sub = (f, args)" by (cases sub)
  have step: "submit_all (sub # subs) s = submit_all subs (fst (schedule_task f args s))"
    by (simp add: submit_all_def sub)
  have one: "tasks (fst (schedule_task f args s)) = tasks s @ [closure_of sub]"
    by (simp add: schedule_task_def Let_def closure_of_def stored_def sub comp_def)
  show ?case using Cons.IH [of "fst (schedule_task f args s)"] by (simp add: step one)
qed

lemma namedTasks_submit_all: "namedTasks (submit_all subs s) = namedTasks s"
proof (induction subs arbitrary: s)
  case Nil
  then show ?case by (simp add: submit_all_def)
next
  case (Cons sub subs)
  obtain f args where sub: "sub = (f, args)" by (cases sub)
  have step: "submit_all (sub # subs) s = submit_all subs (fst (schedule_task f args s))"
    by (simp add: submit_all_def sub)
  have one: "namedTasks (fst (schedule_task f args s)) = namedTasks s"
    by (simp add: schedule_task_def Let_def)
  show ?case using Cons.IH [of "fst (schedule_task f args s)"] by (simp add: step one)
qed

text \<open>
  C2. FIFO order. Submit any sequence of anonymous tasks with \<open>schedule_task\<close>, in the
  order of the list \<open>subs\<close>: their closures are appended to \<open>tasks\<close> in that order. On a
  fresh scheduler, \<open>execute_all\<close> then calls them in submission order: the calls it
  makes are an initial part of the submission sequence, and when no closure throws it
  returns and the world it leaves is the one obtained by calling every closure, one after
  the other in submission order (for three submissions A, B, C: the effect of C on the
  effect of B on the effect of A).
\<close>

theorem fifo_order:
  "tasks (submit_all subs s) = tasks s @ map closure_of subs
   \<and> snd (snd (execute_all (submit_all subs Scheduler_init) w))
       = effects (take (invoked (map closure_of subs) w) (map closure_of subs)) w
   \<and> (first_raise (map closure_of subs) w = None \<longrightarrow>
        fst (execute_all (submit_all subs Scheduler_init) w) = None
      \<and> snd (snd (execute_all (submit_all subs Scheduler_init) w))
          = foldl (\<lambda>w' sub. call_effect (closure_of sub) w') w subs)"
proof -
  let ?s = "submit_all subs Scheduler_init"
  have ts: "tasks ?s = map closure_of subs"
    by (simp add: tasks_submit_all Scheduler_init_def)
  have "entries (namedTasks ?s) = []"
    by (simp add: namedTasks_submit_all Scheduler_init_def map_empty.rep_eq)
  with ts have ro: "run_order ?s = map closure_of subs" by (simp add: run_order_def)
  have fold: "effects (map closure_of subs) w
       = foldl (\<lambda>w' sub. call_effect (closure_of sub) w') w subs"
    by (simp add: effects_def foldl_map)
  have app: "tasks (submit_all subs s) = tasks s @ map closure_of subs"
    by (rule tasks_submit_all)
  have part: "snd (snd (execute_all ?s w))
       = effects (take (invoked (map closure_of subs) w) (map closure_of subs)) w"
    using execute_all_world [of ?s w] by (simp add: ro)
  have "fst (execute_all ?s w) = None
      \<and> snd (snd (execute_all ?s w))
          = foldl (\<lambda>w' sub. call_effect (closure_of sub) w') w subs"
    if "first_raise (map closure_of subs) w = None"
    using that fold execute_all_raise [of ?s w] part by (simp add: ro invoked_all)
  with app part show ?thesis by blast
qed

theorem fifo_order_witness:
  "snd (snd (execute_all
              (submit_all [(say ''A'', []), (say ''B'', []), (say ''C'', [])] Scheduler_init)
              []))
     = [''A'', ''B'', ''C'']"
proof -
  let ?subs = "[(say ''A'', []), (say ''B'', []), (say ''C'', [])]"
  have ce: "call_effect (closure_of (say l, [])) w = w @ [l]" for l w
    by (simp add: call_effect_def closure_of_def stored_def say_def)
  have cr: "call_raises (closure_of (say l, [])) w = None" for l w
    by (simp add: call_raises_def closure_of_def stored_def say_def)
  have "first_raise (map closure_of ?subs) [] = None"
    by (simp add: cr)
  with fifo_order [of ?subs Scheduler_init "[]"]
  have "snd (snd (execute_all (submit_all ?subs Scheduler_init) []))
          = foldl (\<lambda>w' sub. call_effect (closure_of sub) w') [] ?subs"
    by blast
  then show ?thesis by (simp add: ce)
qed

lemma tasks_mixed_scheduler:
  "tasks mixed_scheduler = [closure_of (say ''anonymous'', [])]"
  by (simp add: mixed_scheduler_def schedule_named_task_def schedule_task_def Let_def
        Scheduler_init_def closure_of_def stored_def)

lemma entries_mixed_scheduler:
  "entries (namedTasks mixed_scheduler)
     = [(''a'', say_task ''named a''), (''b'', say_task ''named b'')]"
  by (simp add: mixed_scheduler_def schedule_named_task_def schedule_task_def Let_def
        Scheduler_init_def subscript_assign.rep_eq map_empty.rep_eq)

lemma call_say [simp]:
  "call_raises (closure_of (say l, [])) w = None"
  "call_effect (closure_of (say l, [])) w = w @ [l]"
  by (simp_all add: call_raises_def call_effect_def closure_of_def stored_def say_def)

lemma call_fail [simp]:
  "call_raises (closure_of (fail l, [])) w = Some (thrown l)"
  "call_effect (closure_of (fail l, [])) w = w"
  by (simp_all add: call_raises_def call_effect_def closure_of_def stored_def fail_def)

lemma call_say_task [simp]:
  "call_raises (say_task l) w = None"
  "call_effect (say_task l) w = w @ [l]"
  by (simp_all add: call_raises_def call_effect_def say_task_def)

text \<open>
  C5. \<open>execute_all\<close> calls the tasks in one sequence: the anonymous tasks in vector
  order, then the named tasks in the iteration order of the map, whose keys are strictly
  ascending. The calls it makes are an initial part of that sequence (all of it when no
  task throws), so no named task is called before every anonymous task has been called;
  when no task throws, the world it leaves is the effect of the named tasks, in ascending
  key order, on the effect of the anonymous tasks.
\<close>

theorem anonymous_before_named:
  "sorted_wrt (<) (map fst (entries (namedTasks s)))
   \<and> snd (snd (execute_all s w))
       = effects (take (invoked (tasks s @ map snd (entries (namedTasks s))) w)
                    (tasks s @ map snd (entries (namedTasks s)))) w
   \<and> (first_raise (tasks s @ map snd (entries (namedTasks s))) w = None \<longrightarrow>
        fst (execute_all s w) = None
      \<and> snd (snd (execute_all s w))
          = effects (map snd (entries (namedTasks s))) (effects (tasks s) w))"
proof -
  have keys: "sorted_wrt (<) (map fst (entries (namedTasks s)))"
    using entries [of "namedTasks s"] by simp
  have world: "snd (snd (execute_all s w))
       = effects (take (invoked (tasks s @ map snd (entries (namedTasks s))) w)
                    (tasks s @ map snd (entries (namedTasks s)))) w"
    using execute_all_world [of s w] by (simp add: run_order_def)
  have "fst (execute_all s w) = None
      \<and> snd (snd (execute_all s w))
          = effects (map snd (entries (namedTasks s))) (effects (tasks s) w)"
    if none: "first_raise (tasks s @ map snd (entries (namedTasks s))) w = None"
  proof -
    from none have "invoked (tasks s @ map snd (entries (namedTasks s))) w
        = length (tasks s @ map snd (entries (namedTasks s)))"
      by (rule invoked_all)
    with world none execute_all_raise [of s w] show ?thesis
      by (simp add: run_order_def effects_append)
  qed
  with keys world show ?thesis by blast
qed

theorem anonymous_before_named_witness:
  "map fst (entries (namedTasks mixed_scheduler)) = [''a'', ''b'']
   \<and> snd (snd (execute_all mixed_scheduler [])) = [''anonymous'', ''named a'', ''named b'']"
proof -
  have none: "first_raise (tasks mixed_scheduler @ map snd (entries (namedTasks mixed_scheduler))) []
      = None"
    by (simp add: tasks_mixed_scheduler entries_mixed_scheduler)
  from anonymous_before_named [of mixed_scheduler "[]"] none
  have "snd (snd (execute_all mixed_scheduler []))
          = effects (map snd (entries (namedTasks mixed_scheduler)))
              (effects (tasks mixed_scheduler) [])"
    by blast
  then show ?thesis
    by (simp add: tasks_mixed_scheduler entries_mixed_scheduler effects_Cons effects_Nil)
qed

section \<open>Named overwrite\<close>

lemma assign_entry_split:
  "sorted_wrt (<) (map fst m) \<Longrightarrow>
     assign_entry k v m = filter (\<lambda>p. fst p < k) m @ (k, v) # filter (\<lambda>p. k < fst p) m"
proof (induction m)
  case Nil
  then show ?case by simp
next
  case (Cons p m)
  obtain a b where p: "p = (a, b)" by (cases p)
  from Cons.prems have tl: "sorted_wrt (<) (map fst m)"
    and hd: "\<forall>x\<in>set m. a < fst x"
    by (simp_all add: p)
  show ?case
  proof (cases "k < a")
    case True
    with hd have "\<forall>x\<in>set m. k < fst x" by auto
    then have "filter (\<lambda>p. fst p < k) m = []" and "filter (\<lambda>p. k < fst p) m = m"
      by (auto simp: filter_empty_conv filter_id_conv)
    with True show ?thesis by (simp add: p)
  next
    case False
    show ?thesis
    proof (cases "k = a")
      case True
      with hd have "\<forall>x\<in>set m. k < fst x" by auto
      then have "filter (\<lambda>p. fst p < k) m = []" and "filter (\<lambda>p. k < fst p) m = m"
        by (auto simp: filter_empty_conv filter_id_conv)
      with True show ?thesis by (simp add: p)
    next
      case ne: False
      with False have "a < k" by simp
      with Cons.IH [OF tl] False ne show ?thesis by (simp add: p)
    qed
  qed
qed

text \<open>
  C6. Named overwrite. After \<open>schedule_named_task n T1\<close> followed by
  \<open>schedule_named_task n T2\<close> the scheduler is the one that \<open>schedule_named_task n T2\<close>
  alone produces: \<open>T1\<close> is gone without having been invoked. The named collection has
  exactly one entry under \<open>n\<close>, and it holds \<open>T2\<close>. \<open>execute_all\<close> then calls, in this
  order, the anonymous tasks, the named tasks with keys below \<open>n\<close>, \<open>T2\<close>, and the named
  tasks with keys above \<open>n\<close> (an initial part of that sequence when a task throws): \<open>T2\<close>
  is the task run for the key \<open>n\<close>, \<open>T1\<close> is not in the sequence. On a fresh scheduler
  \<open>execute_all\<close> is one call of \<open>T2\<close>: it leaves the world that call leaves, and throws
  what that call throws.
\<close>

theorem named_overwrite:
  "schedule_named_task n T2 (schedule_named_task n T1 s) = schedule_named_task n T2 s
   \<and> lookup (namedTasks (schedule_named_task n T2 (schedule_named_task n T1 s))) n = Some T2
   \<and> filter (\<lambda>p. fst p = n)
        (entries (namedTasks (schedule_named_task n T2 (schedule_named_task n T1 s))))
       = [(n, T2)]
   \<and> execute_all (schedule_named_task n T2 (schedule_named_task n T1 s)) w
       = execute_all (schedule_named_task n T2 s) w
   \<and> snd (snd (execute_all (schedule_named_task n T2 (schedule_named_task n T1 s)) w))
       = effects
           (take (invoked
                    (tasks s @ map snd (filter (\<lambda>p. fst p < n) (entries (namedTasks s)))
                       @ T2 # map snd (filter (\<lambda>p. n < fst p) (entries (namedTasks s)))) w)
              (tasks s @ map snd (filter (\<lambda>p. fst p < n) (entries (namedTasks s)))
                 @ T2 # map snd (filter (\<lambda>p. n < fst p) (entries (namedTasks s))))) w
   \<and> fst (execute_all (schedule_named_task n T2 (schedule_named_task n T1 Scheduler_init)) w)
       = call_raises T2 w
   \<and> snd (snd (execute_all
                  (schedule_named_task n T2 (schedule_named_task n T1 Scheduler_init)) w))
       = call_effect T2 w"
proof -
  let ?s2 = "schedule_named_task n T2 (schedule_named_task n T1 s)"
  let ?f2 = "schedule_named_task n T2 (schedule_named_task n T1 Scheduler_init)"
  have eq: "?s2 = schedule_named_task n T2 s"
    by (simp add: schedule_named_task_def subscript_assign_twice)
  have lk: "lookup (namedTasks ?s2) n = Some T2"
    by (simp add: schedule_named_task_def lookup_subscript_assign)
  have one: "filter (\<lambda>p. fst p = n) (entries (namedTasks ?s2)) = [(n, T2)]"
    using lk keys_distinct [of "namedTasks ?s2"]
    unfolding lookup_def by (rule one_entry_per_key [rotated])
  have ent: "entries (namedTasks (schedule_named_task n T2 s'))
      = filter (\<lambda>p. fst p < n) (entries (namedTasks s'))
          @ (n, T2) # filter (\<lambda>p. n < fst p) (entries (namedTasks s'))" for s' :: "'a Scheduler"
    using entries [of "namedTasks s'"]
    by (simp add: schedule_named_task_def subscript_assign.rep_eq assign_entry_split)
  have ro: "run_order (schedule_named_task n T2 s')
      = tasks s' @ map snd (filter (\<lambda>p. fst p < n) (entries (namedTasks s')))
          @ T2 # map snd (filter (\<lambda>p. n < fst p) (entries (namedTasks s')))"
    for s' :: "'a Scheduler"
    by (simp add: run_order_def ent) (simp add: schedule_named_task_def)
  have world: "snd (snd (execute_all ?s2 w))
       = effects
           (take (invoked
                    (tasks s @ map snd (filter (\<lambda>p. fst p < n) (entries (namedTasks s)))
                       @ T2 # map snd (filter (\<lambda>p. n < fst p) (entries (namedTasks s)))) w)
              (tasks s @ map snd (filter (\<lambda>p. fst p < n) (entries (namedTasks s)))
                 @ T2 # map snd (filter (\<lambda>p. n < fst p) (entries (namedTasks s))))) w"
    using execute_all_world [of "schedule_named_task n T2 s" w] by (simp only: eq ro)
  have feq: "?f2 = schedule_named_task n T2 Scheduler_init"
    by (simp add: schedule_named_task_def subscript_assign_twice)
  have fro: "run_order ?f2 = [T2]"
    unfolding feq ro by (simp add: Scheduler_init_def map_empty.rep_eq)
  have fr: "fst (execute_all ?f2 w) = call_raises T2 w"
    using execute_all_raise [of ?f2 w] by (simp add: fro)
  have fw: "snd (snd (execute_all ?f2 w)) = call_effect T2 w"
    using execute_all_world [of ?f2 w] by (simp add: fro effects_Cons effects_Nil)
  from eq lk one world fr fw show ?thesis by simp
qed

section \<open>What execution leaves behind\<close>

lemma run_tasks_unchanged:
  "\<forall>t \<in> set ts. \<forall>w'. fst (snd (invoke t w')) = t \<Longrightarrow> fst (snd (run_tasks ts w)) = ts"
proof (induction ts arbitrary: w)
  case Nil
  then show ?case by simp
next
  case (Cons t ts)
  obtain r t' w' where i: "invoke t w = (r, t', w')" by (cases "invoke t w")
  obtain r2 ts2 w2 where rt: "run_tasks ts w' = (r2, ts2, w2)" by (cases "run_tasks ts w'")
  from Cons.prems have "fst (snd (invoke t w)) = t" by simp
  with i have t': "t' = t" by simp
  from Cons.prems have "\<forall>t \<in> set ts. \<forall>w'. fst (snd (invoke t w')) = t" by simp
  from Cons.IH [OF this, of w'] rt have "ts2 = ts" by simp
  then show ?case by (cases r) (simp_all add: i rt t')
qed

lemma keys_set_values:
  "length vs = length (entries m) \<Longrightarrow> map fst (entries (set_values m vs)) = map fst (entries m)"
  by (simp add: set_values.rep_eq)

lemma set_values_same: "set_values m (map snd (entries m)) = m"
proof -
  have "entries (set_values m (map snd (entries m))) = entries m"
    by (simp add: set_values.rep_eq zip_map_fst_snd)
  then show ?thesis by (simp add: entries_inject)
qed

lemma namedTasks_execute_all:
  "namedTasks (fst (snd (execute_all s w))) = namedTasks s
   \<or> namedTasks (fst (snd (execute_all s w)))
       = set_values (namedTasks s)
           (fst (snd (run_tasks (map snd (entries (namedTasks s))) (effects (tasks s) w))))"
proof -
  obtain r ts' w1 where rt: "run_tasks (tasks s) w = (r, ts', w1)"
    by (cases "run_tasks (tasks s) w")
  show ?thesis
  proof (cases r)
    case None
    with rt have "first_raise (tasks s) w = None"
      using run_tasks_raise [of "tasks s" w] by simp
    then have "w1 = effects (tasks s) w"
      using run_tasks_world [of "tasks s" w] rt by (simp add: invoked_all)
    then show ?thesis using None rt
      by (simp add: execute_all_def run_named_run_tasks split_beta)
  next
    case (Some e)
    then show ?thesis using rt by (simp add: execute_all_def)
  qed
qed

text \<open>
  C7. \<open>execute_all\<close> removes no named task: the named collection has the same keys
  afterwards, whether \<open>execute_all\<close> returns or throws. The function stored under a key
  is the same object; calling it can change its captured state, and when calling changes
  none of the stored functions, the named collection afterwards equals the one before.
\<close>

theorem named_tasks_survive:
  "map fst (entries (namedTasks (fst (snd (execute_all s w)))))
     = map fst (entries (namedTasks s))
   \<and> ((\<forall>t \<in> snd ` set (entries (namedTasks s)). \<forall>w'. fst (snd (invoke t w')) = t) \<longrightarrow>
        namedTasks (fst (snd (execute_all s w))) = namedTasks s)"
proof -
  let ?vs = "fst (snd (run_tasks (map snd (entries (namedTasks s))) (effects (tasks s) w)))"
  have len: "length ?vs = length (entries (namedTasks s))"
    by (simp add: run_tasks_length)
  have keys: "map fst (entries (namedTasks (fst (snd (execute_all s w)))))
     = map fst (entries (namedTasks s))"
    using namedTasks_execute_all [of s w] keys_set_values [OF len] by auto
  have "namedTasks (fst (snd (execute_all s w))) = namedTasks s"
    if same: "\<forall>t \<in> snd ` set (entries (namedTasks s)). \<forall>w'. fst (snd (invoke t w')) = t"
  proof -
    from same have "\<forall>t \<in> set (map snd (entries (namedTasks s))). \<forall>w'. fst (snd (invoke t w')) = t"
      by simp
    then have "?vs = map snd (entries (namedTasks s))" by (rule run_tasks_unchanged)
    then show ?thesis
      using namedTasks_execute_all [of s w] by (auto simp: set_values_same)
  qed
  with keys show ?thesis by blast
qed

lemma invoke_say_task: "fst (snd (invoke (say_task l) w)) = say_task l"
  by (simp add: say_task_def)

theorem named_tasks_survive_witness:
  "namedTasks (fst (snd (execute_all mixed_scheduler []))) = namedTasks mixed_scheduler
   \<and> map fst (entries (namedTasks (fst (snd (execute_all mixed_scheduler []))))) = [''a'', ''b'']"
proof -
  have "\<forall>t \<in> snd ` set (entries (namedTasks mixed_scheduler)).
          \<forall>w'. fst (snd (invoke t w')) = t"
    by (simp add: entries_mixed_scheduler invoke_say_task)
  with named_tasks_survive [of mixed_scheduler "[]"]
  have "namedTasks (fst (snd (execute_all mixed_scheduler []))) = namedTasks mixed_scheduler"
    by blast
  then show ?thesis by (simp add: entries_mixed_scheduler)
qed

section \<open>A task that throws\<close>

lemma tasks_failing_batch:
  "tasks failing_batch
     = [closure_of (say ''A'', []), closure_of (fail ''B'', []), closure_of (say ''C'', [])]"
  unfolding failing_batch_def tasks_submit_all by (simp add: Scheduler_init_def)

lemma run_order_failing_batch:
  "run_order failing_batch
     = [closure_of (say ''A'', []), closure_of (fail ''B'', []), closure_of (say ''C'', [])]"
proof -
  have "entries (namedTasks failing_batch) = []"
    by (simp add: failing_batch_def namedTasks_submit_all Scheduler_init_def map_empty.rep_eq)
  then show ?thesis by (simp add: run_order_def tasks_failing_batch)
qed

text \<open>
  C8, as claimed, fails. In the batch A, B, C where B throws, \<open>execute_all\<close> does not
  return a list of errors: B's exception leaves \<open>execute_all\<close>. C is never called (the
  world holds A's line only), and the three tasks are still in the vector.
\<close>

theorem partial_failure_counterexample:
  "fst (execute_all failing_batch []) = Some (thrown ''B'')
   \<and> snd (snd (execute_all failing_batch [])) = [''A'']
   \<and> length (tasks (fst (snd (execute_all failing_batch [])))) = 3"
proof -
  have a: "fst (execute_all failing_batch []) = Some (thrown ''B'')"
    by (simp add: execute_all_raise run_order_failing_batch)
  have b: "snd (snd (execute_all failing_batch [])) = [''A'']"
    by (simp add: execute_all_world run_order_failing_batch effects_Cons effects_Nil)
  obtain r ts' w1 where rt: "run_tasks (tasks failing_batch) [] = (r, ts', w1)"
    by (cases "run_tasks (tasks failing_batch) []")
  have "r = Some (thrown ''B'')"
    using run_tasks_raise [of "tasks failing_batch" "[]"] rt
    by (simp add: tasks_failing_batch)
  moreover have "length ts' = 3"
    using run_tasks_length [of "tasks failing_batch" "[]"] rt
    by (simp add: tasks_failing_batch)
  ultimately have c: "length (tasks (fst (snd (execute_all failing_batch [])))) = 3"
    by (simp add: execute_all_def rt)
  from a b c show ?thesis by blast
qed

text \<open>
  C8, amended. When the tasks before \<open>t\<close> in run order return and \<open>t\<close> throws \<open>e\<close>, then
  \<open>e\<close> leaves \<open>execute_all\<close> and the world is as \<open>t\<close> left it: the tasks before \<open>t\<close> have
  run, no task after \<open>t\<close> runs. When no task throws, \<open>execute_all\<close> returns and every
  task of the batch has run.
\<close>

theorem failure_ends_batch:
  "(run_order s = before @ t # rest \<and> first_raise before w = None
      \<and> call_raises t (effects before w) = Some e \<longrightarrow>
        fst (execute_all s w) = Some e
      \<and> snd (snd (execute_all s w)) = call_effect t (effects before w))
   \<and> (first_raise (run_order s) w = None \<longrightarrow>
        fst (execute_all s w) = None
      \<and> snd (snd (execute_all s w)) = effects (run_order s) w)"
proof -
  have "fst (execute_all s w) = Some e
      \<and> snd (snd (execute_all s w)) = call_effect t (effects before w)"
    if ro: "run_order s = before @ t # rest" and ok: "first_raise before w = None"
      and thr: "call_raises t (effects before w) = Some e"
  proof -
    have fr: "first_raise (run_order s) w = Some e"
      using ok thr by (simp add: ro first_raise_append)
    have inv: "invoked (run_order s) w = Suc (length before)"
      using ok thr by (simp add: ro invoked_append)
    have "take (invoked (run_order s) w) (run_order s) = before @ [t]"
      unfolding inv unfolding ro by simp
    then have "effects (take (invoked (run_order s) w) (run_order s)) w
        = call_effect t (effects before w)"
      by (simp add: effects_append effects_Cons effects_Nil)
    with fr show ?thesis
      using execute_all_raise [of s w] execute_all_world [of s w] by simp
  qed
  moreover have "fst (execute_all s w) = None
      \<and> snd (snd (execute_all s w)) = effects (run_order s) w"
    if none: "first_raise (run_order s) w = None"
    using none execute_all_raise [of s w] execute_all_world [of s w]
    by (simp add: invoked_all)
  ultimately show ?thesis by blast
qed

theorem failure_ends_batch_witness:
  "fst (execute_all failing_batch []) = Some (thrown ''B'')
   \<and> snd (snd (execute_all failing_batch [])) = [''A'']
   \<and> fst (execute_all mixed_scheduler []) = None
   \<and> snd (snd (execute_all mixed_scheduler [])) = [''anonymous'', ''named a'', ''named b'']"
proof -
  have "run_order failing_batch
          = [closure_of (say ''A'', [])] @ closure_of (fail ''B'', []) # [closure_of (say ''C'', [])]
        \<and> first_raise [closure_of (say ''A'', [])] [] = None
        \<and> call_raises (closure_of (fail ''B'', [])) (effects [closure_of (say ''A'', [])] [])
            = Some (thrown ''B'')"
    by (simp add: run_order_failing_batch effects_Cons effects_Nil)
  with failure_ends_batch [of failing_batch "[closure_of (say ''A'', [])]"
      "closure_of (fail ''B'', [])" "[closure_of (say ''C'', [])]" "[]" "thrown ''B''"]
  have one: "fst (execute_all failing_batch []) = Some (thrown ''B'')
      \<and> snd (snd (execute_all failing_batch []))
          = call_effect (closure_of (fail ''B'', [])) (effects [closure_of (say ''A'', [])] [])"
    by blast
  have ro: "run_order mixed_scheduler
      = [closure_of (say ''anonymous'', []), say_task ''named a'', say_task ''named b'']"
    by (simp add: run_order_def tasks_mixed_scheduler entries_mixed_scheduler)
  then have "first_raise (run_order mixed_scheduler) [] = None" by simp
  with failure_ends_batch [of mixed_scheduler "[]" "closure_of (say ''anonymous'', [])"
      "[say_task ''named a'', say_task ''named b'']" "[]" "thrown ''B''"]
  have two: "fst (execute_all mixed_scheduler []) = None
      \<and> snd (snd (execute_all mixed_scheduler [])) = effects (run_order mixed_scheduler) []"
    by blast
  from one two show ?thesis
    by (simp add: ro effects_Cons effects_Nil)
qed

section \<open>ModernAsyncDesign: executing tasks\<close>

lemma Task_execute_raise: "fst (Task_execute t w) = call_raises (guarded t) w"
  by (cases "task_func t")
     (simp_all add: Task_execute_def guarded_def call_raises_def split_beta)

lemma Task_execute_world: "snd (snd (Task_execute t w)) = call_effect (guarded t) w"
  by (cases "task_func t")
     (simp_all add: Task_execute_def guarded_def call_effect_def split_beta)

lemma Task_execute_name_priority:
  "task_name (fst (snd (Task_execute t w))) = task_name t"
  "priority (fst (snd (Task_execute t w))) = priority t"
  by (simp_all add: Task_execute_def split_beta)

lemma run_async_tasks_raise:
  "fst (run_async_tasks ts w) = first_raise (map guarded ts) w"
proof (induction ts arbitrary: w)
  case Nil
  then show ?case by simp
next
  case (Cons t ts)
  obtain r t' w' where i: "Task_execute t w = (r, t', w')" by (cases "Task_execute t w")
  then have cr: "call_raises (guarded t) w = r" and ce: "call_effect (guarded t) w = w'"
    using Task_execute_raise [of t w] Task_execute_world [of t w] by simp_all
  obtain r2 ts2 w2 where rt: "run_async_tasks ts w' = (r2, ts2, w2)"
    by (cases "run_async_tasks ts w'")
  show ?case using Cons.IH [of w'] by (cases r) (simp_all add: i cr ce rt)
qed

lemma run_async_tasks_world:
  "snd (snd (run_async_tasks ts w))
     = effects (take (invoked (map guarded ts) w) (map guarded ts)) w"
proof (induction ts arbitrary: w)
  case Nil
  then show ?case by (simp add: effects_Nil)
next
  case (Cons t ts)
  obtain r t' w' where i: "Task_execute t w = (r, t', w')" by (cases "Task_execute t w")
  then have cr: "call_raises (guarded t) w = r" and ce: "call_effect (guarded t) w = w'"
    using Task_execute_raise [of t w] Task_execute_world [of t w] by simp_all
  obtain r2 ts2 w2 where rt: "run_async_tasks ts w' = (r2, ts2, w2)"
    by (cases "run_async_tasks ts w'")
  show ?case using Cons.IH [of w']
    by (cases r) (simp_all add: i cr ce rt effects_Cons effects_Nil)
qed

lemma run_async_tasks_names:
  "map task_name (fst (snd (run_async_tasks ts w))) = map task_name ts
   \<and> map priority (fst (snd (run_async_tasks ts w))) = map priority ts"
proof (induction ts arbitrary: w)
  case Nil
  then show ?case by simp
next
  case (Cons t ts)
  obtain r t' w' where i: "Task_execute t w = (r, t', w')" by (cases "Task_execute t w")
  then have np: "task_name t' = task_name t" "priority t' = priority t"
    using Task_execute_name_priority [of t w] by simp_all
  obtain r2 ts2 w2 where rt: "run_async_tasks ts w' = (r2, ts2, w2)"
    by (cases "run_async_tasks ts w'")
  show ?case using Cons.IH [of w'] by (cases r) (simp_all add: i np rt)
qed

lemma sched_tasks_execute_all:
  "sched_tasks (fst (snd (TaskScheduler_execute_all ordered s w)))
     = fst (snd (run_async_tasks ordered w))"
  by (simp add: TaskScheduler_execute_all_def split_beta)

lemma TaskScheduler_execute_all_raise:
  "fst (TaskScheduler_execute_all ordered s w) = first_raise (map guarded ordered) w"
  by (simp add: TaskScheduler_execute_all_def split_beta run_async_tasks_raise)

lemma TaskScheduler_execute_all_world:
  "snd (snd (TaskScheduler_execute_all ordered s w))
     = effects (take (invoked (map guarded ordered) w) (map guarded ordered)) w"
  by (simp add: TaskScheduler_execute_all_def split_beta run_async_tasks_world)

lemma filter_same_key:
  "distinct (map f xs) \<Longrightarrow> k \<in> set xs \<Longrightarrow> filter (\<lambda>x. f k = f x) xs = [k]"
proof (induction xs)
  case Nil
  then show ?case by simp
next
  case (Cons x xs)
  show ?case
  proof (cases "k = x")
    case True
    from Cons.prems have "f x \<notin> f ` set xs" by simp
    then have "filter (\<lambda>y. f x = f y) xs = []" by (auto simp: filter_empty_conv)
    with True show ?thesis by simp
  next
    case False
    with Cons.prems have k: "k \<in> set xs" and d: "distinct (map f xs)" by simp_all
    from Cons.prems have "f x \<notin> f ` set xs" by simp
    with k have "f k \<noteq> f x" by (metis imageI)
    with Cons.IH [OF d k] show ?thesis by simp
  qed
qed

lemma descending_unique:
  fixes f :: "'a \<Rightarrow> int"
  assumes "mset ys = mset xs" and "sorted_wrt (\<lambda>a b. f b \<le> f a) ys"
    and "distinct (map f xs)"
  shows "ys = sort_key (\<lambda>t. - f t) xs"
proof -
  have "mset (map f ys) = mset (map f xs)" using assms(1) by simp
  then have d: "distinct (map f ys)"
    using assms(3) mset_eq_imp_distinct_iff by blast
  have s: "sorted (map (\<lambda>t. - f t) ys)"
    using assms(2) by (simp add: sorted_map)
  have set_eq: "set ys = set xs" using assms(1) by (rule mset_eq_setD)
  have "filter (\<lambda>x. - f k = - f x) ys = filter (\<lambda>x. - f k = - f x) xs" if "k \<in> set ys" for k
    using that filter_same_key [OF d, of k] filter_same_key [OF assms(3), of k] set_eq
    by simp
  from properties_for_sort_key [OF assms(1) this s] show ?thesis by simp
qed

lemma std_sort_by_priority:
  "std_sort_result by_priority xs ys
     \<longleftrightarrow> mset ys = mset xs \<and> sorted_wrt (\<lambda>a b. priority b \<le> priority a) ys"
  by (simp add: std_sort_result_def by_priority_def not_less)

section \<open>Priority order\<close>

lemma guarded_say [simp]: "guarded (Task_ctor n p (say_task l)) = say_task l"
  by (simp add: guarded_def Task_ctor_def say_task_def)

lemma sched_tasks_twenty_scheduler:
  "sched_tasks twenty_scheduler = map equal_task twenty_names"
  by (simp add: twenty_scheduler_def twenty_names_def add_task_def TaskScheduler_ctor_def
        equal_task_def)

lemma by_priority_equal_task [simp]: "by_priority (equal_task a) (equal_task b) = False"
  by (simp add: by_priority_def equal_task_def Task_ctor_def)

lemma guarded_equal_task [simp]: "guarded (equal_task n) = say_task n"
  by (simp add: equal_task_def)

lemma scan_down_pos:
  "0 < l \<Longrightarrow> scan_down cmp xs pivot l
     = (if cmp (xs ! pivot) (xs ! l) then scan_down cmp xs pivot (l - 1) else l)"
  by (cases l) simp_all

lemma introsort_loop_pos:
  "0 < d \<Longrightarrow> introsort_loop cmp xs first last' d =
     (if last' - first > 16
      then (case unguarded_partition_pivot cmp xs first last' of
              (cut', xs1) \<Rightarrow>
                (case introsort_loop cmp xs1 cut' last' (d - 1) of
                   None \<Rightarrow> None
                 | Some xs2 \<Rightarrow> introsort_loop cmp xs2 first cut' (d - 1)))
      else Some xs)"
proof -
  assume "0 < d"
  then obtain n where d: "d = Suc n" by (cases d) auto
  then have n: "d - 1 = n" by simp
  show ?thesis by (simp only: n) (simp add: d)
qed

lemma unguarded_linear_insert_pos:
  "0 < i \<Longrightarrow> unguarded_linear_insert cmp val xs i =
     (if cmp val (xs ! (i - 1))
      then unguarded_linear_insert cmp val (xs[i := xs ! (i - 1)]) (i - 1)
      else xs[i := val])"
  by (cases i) simp_all

lemma partition_twenty:
  "unguarded_partition_pivot by_priority (map equal_task twenty_names) 0 20
     = (10, map equal_task reordered_names)"
  by (simp add: unguarded_partition_pivot_def move_median_to_first_def iter_swap_def
        unguarded_partition.simps scan_up.simps scan_down_pos Let_def
        twenty_names_def reordered_names_def)

lemma introsort_twenty:
  "introsort_loop by_priority (map equal_task twenty_names) 0 20 8
     = Some (map equal_task reordered_names)"
  by (simp add: introsort_loop_pos partition_twenty)

lemma final_insertion_twenty:
  "final_insertion_sort by_priority (map equal_task reordered_names) 0 20
     = map equal_task reordered_names"
  by (simp add: final_insertion_sort_def insertion_sort_def unguarded_insertion_sort_def
        insertion_step_def unguarded_linear_insert_pos upt_conv_Cons reordered_names_def)

text \<open>
  The run of the GNU \<^verbatim>\<open>std::sort\<close> on the twenty tasks of equal priority: the median
  step swaps the first task with the middle one, the partition step reverses the rest,
  and the insertion sort moves nothing. The tasks come out in the order k, t, s, r, q, p,
  o, n, m, l, a, j, i, h, g, f, e, d, c, b.
\<close>

lemma gnu_sort_twenty:
  "gnu_sort by_priority (sched_tasks twenty_scheduler) = Some (map equal_task reordered_names)"
proof -
  have len: "length twenty_names = 20" "length reordered_names = 20"
    by (simp_all add: twenty_names_def reordered_names_def)
  have ne: "twenty_names \<noteq> []" by (simp add: twenty_names_def)
  have lg: "lg 20 = 4" by (simp add: lg.simps)
  show ?thesis
    by (simp add: sched_tasks_twenty_scheduler gnu_sort_def ne len lg introsort_twenty
          final_insertion_twenty)
qed

lemma std_sort_result_twenty:
  "std_sort_result by_priority (sched_tasks twenty_scheduler) (map equal_task reordered_names)"
proof -
  have "mset reordered_names = mset twenty_names"
    by (simp add: reordered_names_def twenty_names_def)
  then have "mset (map equal_task reordered_names) = mset (map equal_task twenty_names)"
    by simp
  moreover have "sorted_wrt (\<lambda>a b. priority b \<le> priority a) (map equal_task ns)" for ns
    by (simp add: sorted_wrt_map equal_task_def Task_ctor_def)
  ultimately show ?thesis
    by (simp add: std_sort_by_priority sched_tasks_twenty_scheduler)
qed

text \<open>
  C3, as claimed, fails in its second half. \<open>twenty_scheduler\<close> holds twenty tasks of
  priority 1, submitted in the order a, b, ..., t. \<^verbatim>\<open>std::sort\<close> leaves them in the
  order k, t, s, ..., l, a, j, ..., b (the order the GNU implementation produces, see
  \<open>gnu_sort_twenty\<close>; the standard allows it, since equal elements need not keep their
  order), and \<open>execute_all\<close> runs them in that order: k runs first and b last, although a
  was submitted first and b second.
\<close>

theorem stable_priority_counterexample:
  "sched_tasks twenty_scheduler = map equal_task twenty_names
   \<and> twenty_names =
       [''a'', ''b'', ''c'', ''d'', ''e'', ''f'', ''g'', ''h'', ''i'', ''j'',
        ''k'', ''l'', ''m'', ''n'', ''o'', ''p'', ''q'', ''r'', ''s'', ''t'']
   \<and> map priority (sched_tasks twenty_scheduler) = replicate 20 1
   \<and> std_sort_result by_priority (sched_tasks twenty_scheduler)
        (map equal_task reordered_names)
   \<and> snd (snd (TaskScheduler_execute_all (map equal_task reordered_names)
                  twenty_scheduler []))
       = [''k'', ''t'', ''s'', ''r'', ''q'', ''p'', ''o'', ''n'', ''m'', ''l'',
          ''a'', ''j'', ''i'', ''h'', ''g'', ''f'', ''e'', ''d'', ''c'', ''b'']"
proof -
  have a: "map priority (sched_tasks twenty_scheduler) = replicate 20 1"
    by (simp add: sched_tasks_twenty_scheduler twenty_names_def equal_task_def Task_ctor_def
          eval_nat_numeral)
  have b: "snd (snd (TaskScheduler_execute_all (map equal_task reordered_names)
                  twenty_scheduler []))
       = [''k'', ''t'', ''s'', ''r'', ''q'', ''p'', ''o'', ''n'', ''m'', ''l'',
          ''a'', ''j'', ''i'', ''h'', ''g'', ''f'', ''e'', ''d'', ''c'', ''b'']"
    by (simp add: TaskScheduler_execute_all_world reordered_names_def effects_Cons effects_Nil)
  from a b sched_tasks_twenty_scheduler std_sort_result_twenty twenty_names_def
  show ?thesis by blast
qed

text \<open>
  C3, amended. Whatever order \<^verbatim>\<open>std::sort\<close> leaves, it holds exactly the submitted
  tasks with priorities descending (never increasing), and \<open>execute_all\<close> executes the
  tasks in that order: the calls it makes are an initial part of it, all of it when no
  task throws. When the priorities are pairwise distinct the order is determined: it is
  the stable descending sort of the submitted tasks. The order of tasks with equal
  priority is not fixed.
\<close>

theorem priority_order:
  "std_sort_result by_priority (sched_tasks s) ordered \<longrightarrow>
     mset ordered = mset (sched_tasks s)
   \<and> sorted_wrt (\<lambda>a b. priority b \<le> priority a) ordered
   \<and> snd (snd (TaskScheduler_execute_all ordered s w))
       = effects (take (invoked (map guarded ordered) w) (map guarded ordered)) w
   \<and> (first_raise (map guarded ordered) w = None \<longrightarrow>
        fst (TaskScheduler_execute_all ordered s w) = None
      \<and> snd (snd (TaskScheduler_execute_all ordered s w)) = effects (map guarded ordered) w)
   \<and> (distinct (map priority (sched_tasks s)) \<longrightarrow>
        ordered = sort_key (\<lambda>t. - priority t) (sched_tasks s))"
proof
  assume ssr: "std_sort_result by_priority (sched_tasks s) ordered"
  then have m: "mset ordered = mset (sched_tasks s)"
    and d: "sorted_wrt (\<lambda>a b. priority b \<le> priority a) ordered"
    by (simp_all add: std_sort_by_priority)
  have world: "snd (snd (TaskScheduler_execute_all ordered s w))
       = effects (take (invoked (map guarded ordered) w) (map guarded ordered)) w"
    by (rule TaskScheduler_execute_all_world)
  have all: "fst (TaskScheduler_execute_all ordered s w) = None
      \<and> snd (snd (TaskScheduler_execute_all ordered s w)) = effects (map guarded ordered) w"
    if none: "first_raise (map guarded ordered) w = None"
    using none world invoked_all [OF none]
    by (simp add: TaskScheduler_execute_all_raise)
  have uniq: "ordered = sort_key (\<lambda>t. - priority t) (sched_tasks s)"
    if "distinct (map priority (sched_tasks s))"
    using m d that by (rule descending_unique)
  from m d world all uniq
  show "mset ordered = mset (sched_tasks s)
   \<and> sorted_wrt (\<lambda>a b. priority b \<le> priority a) ordered
   \<and> snd (snd (TaskScheduler_execute_all ordered s w))
       = effects (take (invoked (map guarded ordered) w) (map guarded ordered)) w
   \<and> (first_raise (map guarded ordered) w = None \<longrightarrow>
        fst (TaskScheduler_execute_all ordered s w) = None
      \<and> snd (snd (TaskScheduler_execute_all ordered s w)) = effects (map guarded ordered) w)
   \<and> (distinct (map priority (sched_tasks s)) \<longrightarrow>
        ordered = sort_key (\<lambda>t. - priority t) (sched_tasks s))"
    by blast
qed

lemma sched_tasks_priority_scheduler:
  "sched_tasks priority_scheduler
     = [Task_ctor ''A'' 1 (say_task ''A''), Task_ctor ''B'' 5 (say_task ''B''),
        Task_ctor ''C'' 3 (say_task ''C'')]"
  by (simp add: priority_scheduler_def add_task_def TaskScheduler_ctor_def)

theorem priority_order_witness:
  "std_sort_result by_priority (sched_tasks priority_scheduler)
     [Task_ctor ''B'' 5 (say_task ''B''), Task_ctor ''C'' 3 (say_task ''C''),
      Task_ctor ''A'' 1 (say_task ''A'')]
   \<and> snd (snd (TaskScheduler_execute_all
        [Task_ctor ''B'' 5 (say_task ''B''), Task_ctor ''C'' 3 (say_task ''C''),
         Task_ctor ''A'' 1 (say_task ''A'')] priority_scheduler []))
       = [''B'', ''C'', ''A'']
   \<and> sort_key (\<lambda>t. - priority t) (sched_tasks priority_scheduler)
       = [Task_ctor ''B'' 5 (say_task ''B''), Task_ctor ''C'' 3 (say_task ''C''),
          Task_ctor ''A'' 1 (say_task ''A'')]"
proof -
  let ?ordered = "[Task_ctor ''B'' 5 (say_task ''B''), Task_ctor ''C'' 3 (say_task ''C''),
      Task_ctor ''A'' 1 (say_task ''A'')]"
  have ssr: "std_sort_result by_priority (sched_tasks priority_scheduler) ?ordered"
    by (simp add: std_sort_by_priority sched_tasks_priority_scheduler Task_ctor_def)
  have none: "first_raise (map guarded ?ordered) [] = None" by simp
  have dist: "distinct (map priority (sched_tasks priority_scheduler))"
    by (simp add: sched_tasks_priority_scheduler Task_ctor_def)
  from priority_order [of priority_scheduler ?ordered "[]"] ssr none dist
  have w: "snd (snd (TaskScheduler_execute_all ?ordered priority_scheduler []))
          = effects (map guarded ?ordered) []"
    and u: "?ordered = sort_key (\<lambda>t. - priority t) (sched_tasks priority_scheduler)"
    by blast+
  have "effects (map guarded ?ordered) [] = [''B'', ''C'', ''A'']"
    by (simp add: effects_Cons effects_Nil)
  with w have "snd (snd (TaskScheduler_execute_all ?ordered priority_scheduler []))
          = [''B'', ''C'', ''A'']"
    by (rule trans)
  with ssr u [symmetric] show ?thesis by blast
qed

section \<open>Executing again\<close>

lemma successor_say_task: "fst (snd (Task_execute (Task_ctor n p (say_task l)) w))
    = Task_ctor n p (say_task l)"
  by (simp add: Task_execute_def Task_ctor_def say_task_def)

lemma sched_tasks_once_scheduler: "sched_tasks once_scheduler = [once_task]"
  by (simp add: once_scheduler_def once_task_def add_task_def TaskScheduler_ctor_def)

lemma once_scheduler_after:
  "sched_tasks (fst (snd (TaskScheduler_execute_all [once_task] once_scheduler w)))
     = [once_task]"
proof -
  obtain r t' w' where i: "Task_execute once_task w = (r, t', w')"
    by (cases "Task_execute once_task w")
  then have "t' = once_task"
    using successor_say_task [of "''t''" 0 "''run''" w] by (simp add: once_task_def)
  moreover have "r = None"
    using Task_execute_raise [of once_task w] i by (simp add: once_task_def)
  ultimately show ?thesis
    by (simp add: sched_tasks_execute_all i)
qed

text \<open>
  C4, as claimed, fails for the priority variant. \<open>once_scheduler\<close> holds one task. After
  \<open>execute_all\<close> has run it, the vector still holds the task, and a second \<open>execute_all\<close>
  runs it again: the log has two lines.
\<close>

theorem run_all_clears_counterexample:
  "std_sort_result by_priority (sched_tasks once_scheduler) [once_task]
   \<and> fst (TaskScheduler_execute_all [once_task] once_scheduler []) = None
   \<and> snd (snd (TaskScheduler_execute_all [once_task] once_scheduler [])) = [''run'']
   \<and> sched_tasks (fst (snd (TaskScheduler_execute_all [once_task] once_scheduler [])))
       = [once_task]
   \<and> std_sort_result by_priority
        (sched_tasks (fst (snd (TaskScheduler_execute_all [once_task] once_scheduler []))))
        [once_task]
   \<and> snd (snd (TaskScheduler_execute_all [once_task]
                  (fst (snd (TaskScheduler_execute_all [once_task] once_scheduler [])))
                  [''run'']))
       = [''run'', ''run'']"
proof -
  have g: "guarded once_task = say_task ''run''" by (simp add: once_task_def)
  have a: "std_sort_result by_priority (sched_tasks once_scheduler) [once_task]"
    by (simp add: std_sort_by_priority sched_tasks_once_scheduler)
  have b: "fst (TaskScheduler_execute_all [once_task] once_scheduler []) = None"
    by (simp add: TaskScheduler_execute_all_raise g)
  have c: "snd (snd (TaskScheduler_execute_all [once_task] s w)) = w @ [''run'']" for s w
    by (simp add: TaskScheduler_execute_all_world g effects_Cons effects_Nil)
  have d: "std_sort_result by_priority
        (sched_tasks (fst (snd (TaskScheduler_execute_all [once_task] once_scheduler []))))
        [once_task]"
    by (simp add: std_sort_by_priority once_scheduler_after)
  from a b d c [of once_scheduler "[]"]
    c [of "fst (snd (TaskScheduler_execute_all [once_task] once_scheduler []))" "[''run'']"]
    once_scheduler_after [of "[]"]
  show ?thesis by simp
qed

text \<open>
  C4, amended. In \<open>Scheduler\<close>: when \<open>execute_all\<close> returns, \<open>tasks\<close> is empty, so a
  second \<open>execute_all\<close> calls named tasks only (an initial part of the named tasks in key
  order, all of them when none throws). In the priority variant \<open>TaskScheduler\<close>,
  \<open>execute_all\<close> does not clear: the vector afterwards holds the tasks in the sorted
  order, with the names and priorities they were submitted with.
\<close>

theorem anonymous_tasks_cleared:
  "(fst (execute_all s w) = None \<longrightarrow>
      tasks (fst (snd (execute_all s w))) = []
    \<and> snd (snd (execute_all (fst (snd (execute_all s w))) w2))
        = effects
            (take (invoked (map snd (entries (namedTasks (fst (snd (execute_all s w)))))) w2)
               (map snd (entries (namedTasks (fst (snd (execute_all s w))))))) w2)
   \<and> (std_sort_result by_priority (sched_tasks s') ordered \<longrightarrow>
        map task_name (sched_tasks (fst (snd (TaskScheduler_execute_all ordered s' w'))))
          = map task_name ordered
      \<and> map priority (sched_tasks (fst (snd (TaskScheduler_execute_all ordered s' w'))))
          = map priority ordered
      \<and> mset (map task_name ordered) = mset (map task_name (sched_tasks s'))
      \<and> length (sched_tasks (fst (snd (TaskScheduler_execute_all ordered s' w'))))
          = length (sched_tasks s'))"
proof -
  have one: "tasks (fst (snd (execute_all s w))) = []
    \<and> snd (snd (execute_all (fst (snd (execute_all s w))) w2))
        = effects
            (take (invoked (map snd (entries (namedTasks (fst (snd (execute_all s w)))))) w2)
               (map snd (entries (namedTasks (fst (snd (execute_all s w))))))) w2"
    if ret: "fst (execute_all s w) = None"
  proof -
    obtain r ts' w1 where rt: "run_tasks (tasks s) w = (r, ts', w1)"
      by (cases "run_tasks (tasks s) w")
    have "r = None"
    proof (cases r)
      case None
      then show ?thesis .
    next
      case (Some e)
      with rt have "fst (execute_all s w) = Some e" by (simp add: execute_all_def)
      with ret show ?thesis by simp
    qed
    then have empty: "tasks (fst (snd (execute_all s w))) = []"
      using rt by (simp add: execute_all_def split_beta)
    then have "run_order (fst (snd (execute_all s w)))
        = map snd (entries (namedTasks (fst (snd (execute_all s w)))))"
      by (simp add: run_order_def)
    with execute_all_world [of "fst (snd (execute_all s w))" w2] empty
    show ?thesis by simp
  qed
  have two: "map task_name (sched_tasks (fst (snd (TaskScheduler_execute_all ordered s' w'))))
          = map task_name ordered
      \<and> map priority (sched_tasks (fst (snd (TaskScheduler_execute_all ordered s' w'))))
          = map priority ordered
      \<and> mset (map task_name ordered) = mset (map task_name (sched_tasks s'))
      \<and> length (sched_tasks (fst (snd (TaskScheduler_execute_all ordered s' w'))))
          = length (sched_tasks s')"
    if ssr: "std_sort_result by_priority (sched_tasks s') ordered"
  proof -
    from ssr have m: "mset ordered = mset (sched_tasks s')"
      by (simp add: std_sort_by_priority)
    then have len: "length ordered = length (sched_tasks s')"
      by (rule mset_eq_length)
    have names: "map task_name (sched_tasks (fst (snd (TaskScheduler_execute_all ordered s' w'))))
          = map task_name ordered"
      and prios: "map priority (sched_tasks (fst (snd (TaskScheduler_execute_all ordered s' w'))))
          = map priority ordered"
      using run_async_tasks_names [of ordered w'] by (simp_all add: sched_tasks_execute_all)
    from names have "length (sched_tasks (fst (snd (TaskScheduler_execute_all ordered s' w'))))
        = length ordered"
      by (rule map_eq_imp_length_eq)
    with names prios m len show ?thesis by simp
  qed
  from one two show ?thesis by blast
qed

theorem anonymous_tasks_cleared_witness:
  "tasks (fst (snd (execute_all mixed_scheduler []))) = []
   \<and> snd (snd (execute_all (fst (snd (execute_all mixed_scheduler [])))
                  [''anonymous'', ''named a'', ''named b'']))
       = [''anonymous'', ''named a'', ''named b'', ''named a'', ''named b'']
   \<and> map task_name
        (sched_tasks (fst (snd (TaskScheduler_execute_all [once_task] once_scheduler []))))
       = [''t'']"
proof -
  have ret: "fst (execute_all mixed_scheduler []) = None"
    by (simp add: execute_all_raise run_order_def tasks_mixed_scheduler entries_mixed_scheduler)
  have ssr: "std_sort_result by_priority (sched_tasks once_scheduler) [once_task]"
    by (simp add: std_sort_by_priority sched_tasks_once_scheduler)
  have same: "namedTasks (fst (snd (execute_all mixed_scheduler []))) = namedTasks mixed_scheduler"
  proof -
    have "\<forall>t \<in> set (map snd (entries (namedTasks mixed_scheduler))).
            \<forall>w'. fst (snd (invoke t w')) = t"
      by (simp add: entries_mixed_scheduler invoke_say_task)
    then have "fst (snd (run_tasks (map snd (entries (namedTasks mixed_scheduler))) w))
        = map snd (entries (namedTasks mixed_scheduler))" for w
      by (rule run_tasks_unchanged)
    then show ?thesis
      using namedTasks_execute_all [of mixed_scheduler "[]"] by (auto simp: set_values_same)
  qed
  from anonymous_tasks_cleared [of mixed_scheduler "[]"
      "[''anonymous'', ''named a'', ''named b'']" once_scheduler "[once_task]" "[]"] ret ssr
  have a: "tasks (fst (snd (execute_all mixed_scheduler []))) = []"
    and b: "snd (snd (execute_all (fst (snd (execute_all mixed_scheduler [])))
                  [''anonymous'', ''named a'', ''named b'']))
        = effects
            (take (invoked (map snd (entries (namedTasks (fst (snd (execute_all mixed_scheduler []))))))
                     [''anonymous'', ''named a'', ''named b''])
               (map snd (entries (namedTasks (fst (snd (execute_all mixed_scheduler [])))))))
            [''anonymous'', ''named a'', ''named b'']"
    and c: "map task_name
        (sched_tasks (fst (snd (TaskScheduler_execute_all [once_task] once_scheduler []))))
          = map task_name [once_task]"
    by blast+
  from b have b': "snd (snd (execute_all (fst (snd (execute_all mixed_scheduler [])))
                  [''anonymous'', ''named a'', ''named b'']))
       = [''anonymous'', ''named a'', ''named b'', ''named a'', ''named b'']"
    by (simp add: same entries_mixed_scheduler effects_Cons effects_Nil)
  from c have c': "map task_name
        (sched_tasks (fst (snd (TaskScheduler_execute_all [once_task] once_scheduler []))))
       = [''t'']"
    by (simp add: once_task_def Task_ctor_def)
  from a b' c' show ?thesis by blast
qed

text \<open>
  C9, as claimed, fails. Executing \<open>once_task\<close> a second time, in the world the first
  execution left, throws nothing and runs the callable again: the log has two lines.
\<close>

theorem second_execution_counterexample:
  "fst (Task_execute once_task []) = None
   \<and> snd (snd (Task_execute once_task [])) = [''run'']
   \<and> fst (Task_execute (fst (snd (Task_execute once_task []))) [''run'']) = None
   \<and> snd (snd (Task_execute (fst (snd (Task_execute once_task []))) [''run'']))
       = [''run'', ''run'']"
proof -
  have again: "fst (snd (Task_execute once_task [])) = once_task"
    using successor_say_task [of "''t''" 0 "''run''" "[]"] by (simp add: once_task_def)
  have r: "fst (Task_execute once_task w) = None" for w
    by (simp add: Task_execute_raise once_task_def)
  have e: "snd (snd (Task_execute once_task w)) = w @ [''run'']" for w
    by (simp add: Task_execute_world once_task_def)
  from again r [of "[]"] r [of "[''run'']"] e [of "[]"] e [of "[''run'']"]
  show ?thesis by simp
qed

text \<open>
  C9, amended. A task has no record of having been executed. Executing a task whose
  function holds a callable \<open>c\<close> calls \<open>c\<close>; executing the task again calls the callable
  again, in the state the first call left it in (\<open>successor c w\<close>), and throws only what
  that call throws. The same holds for calling a \<open>Task\<close> of \<open>Scheduler\<close> twice.
\<close>

theorem execute_calls_again:
  "task_func t = Some c \<longrightarrow>
     Task_execute t w = (raises c w, t\<lparr>task_func := Some (successor c w)\<rparr>, effect c w)
   \<and> Task_execute (fst (snd (Task_execute t w))) w2
       = (raises (successor c w) w2,
          t\<lparr>task_func := Some (successor (successor c w) w2)\<rparr>,
          effect (successor c w) w2)
   \<and> invoke (fst (snd (invoke (Some c) w))) w2
       = (raises (successor c w) w2, Some (successor (successor c w) w2),
          effect (successor c w) w2)"
  by (simp add: Task_execute_def)

theorem execute_calls_again_witness:
  "Task_execute (fst (snd (Task_execute once_task []))) [''run'']
     = (None, once_task, [''run'', ''run''])"
proof -
  have tf: "task_func once_task = Some (stateless (\<lambda>w. (None, w @ [''run''])))"
    by (simp add: once_task_def Task_ctor_def say_task_def)
  from execute_calls_again [of once_task "stateless (\<lambda>w. (None, w @ [''run'']))" "[]" "[''run'']"] tf
  have "Task_execute (fst (snd (Task_execute once_task []))) [''run'']
       = (raises (successor (stateless (\<lambda>w. (None, w @ [''run'']))) []) [''run''],
          once_task\<lparr>task_func := Some (successor (successor (stateless (\<lambda>w. (None, w @ [''run'']))) []) [''run''])\<rparr>,
          effect (successor (stateless (\<lambda>w. (None, w @ [''run'']))) []) [''run''])"
    by blast
  then show ?thesis by (simp add: once_task_def Task_ctor_def say_task_def)
qed

end
